theory Spec2Isabelle
  imports Complex_Main
begin

section \<open>The page walker that checks a newest-first listing\<close>

text \<open>
  The repository holds a browser script (\<^verbatim>\<open>src/unnamed/part_000\<close>, three successive
  versions of it in one file) that loads the "newest" listing of a news site, clicks
  through its pages and checks that the first \<open>num_of_articles_to_validate\<close> entries
  carry non-increasing timestamps. The browser library is outside the repository: a
  loaded page is given here by what the script reads from it.
\<close>

subsection \<open>Data model\<close>

text \<open>
  A JavaScript \<^verbatim>\<open>Date\<close> holds a time value in milliseconds, or \<^verbatim>\<open>NaN\<close> when the
  string given to \<^verbatim>\<open>new Date(...)\<close> does not parse ("Invalid Date"). \<open>None\<close> is the
  invalid date.
\<close>

type_synonym jsdate = "int option"

text \<open>
  \<^verbatim>\<open>timestamp > newest_timestamp\<close> on two dates compares their time values as
  numbers; a comparison with \<^verbatim>\<open>NaN\<close> on either side is false.
\<close>

definition date_gt :: "jsdate \<Rightarrow> jsdate \<Rightarrow> bool" where
  "date_gt a b = (case a of None \<Rightarrow> False
                  | Some x \<Rightarrow> (case b of None \<Rightarrow> False | Some y \<Rightarrow> y < x))"

text \<open>\<^verbatim>\<open>a >= b\<close> on two dates, by the same rule.\<close>

definition date_ge :: "jsdate \<Rightarrow> jsdate \<Rightarrow> bool" where
  "date_ge a b = (case a of None \<Rightarrow> False
                  | Some x \<Rightarrow> (case b of None \<Rightarrow> False | Some y \<Rightarrow> y \<le> x))"

text \<open>The triple the script extracts for one entry (part_000, lines 148-150).\<close>

record article =
  title :: string
  article_id :: string
  timestamp :: jsdate

text \<open>
  The article table of a loaded page, as the three locators of
  \<^verbatim>\<open>validateArticlesOnPage\<close> see it: the parsed \<^verbatim>\<open>title\<close> attribute of each
  \<^verbatim>\<open>.age\<close> element, the title line of each \<^verbatim>\<open>.athing\<close> row, and the \<^verbatim>\<open>id\<close>
  attribute of each \<^verbatim>\<open>.score\<close> element. The three lists may differ in length.
  Every row is taken to have its title line and every score element its \<^verbatim>\<open>id\<close>
  attribute, so that the reads of lines 148-149 succeed on every index the loop reaches.
\<close>

record article_table =
  article_ages :: "jsdate list"
  article_athings :: "string list"
  article_scores :: "string list"

text \<open>
  A loaded page: how many elements \<^verbatim>\<open>.morelink\<close> matches, whether
  \<^verbatim>\<open>waitForSelector\<close> finds a visible \<^verbatim>\<open>.age\<close>, \<^verbatim>\<open>.athing\<close> and \<^verbatim>\<open>.score\<close>
  anywhere on the page, whether the second nested table is visible, and the content of
  that table.
\<close>

record page =
  morelink_count :: nat
  age_visible :: bool
  athing_visible :: bool
  score_visible :: bool
  table_visible :: bool
  page_table :: article_table

text \<open>
  How a run ends: \<^verbatim>\<open>process.exit(code)\<close>, or an error thrown inside the async
  function that nothing catches.
\<close>

datatype js_error = ReferenceError | TimeoutError | ExpectError | ClickError

datatype outcome = Exited int | Uncaught js_error

text \<open>
  The exit status the operating system sees: \<^verbatim>\<open>process.exit(-1)\<close> is reported as
  255, and a rejected promise that nothing handles ends the process with status 1
  (the default of Node.js since version 15).
\<close>

fun exit_status :: "outcome \<Rightarrow> int" where
  "exit_status (Exited c) = c mod 256"
| "exit_status (Uncaught e) = 1"

text \<open>The banners the script prints, and what a run does that can be observed.\<close>

datatype banner = CountMismatch | OrderFailed | PageChecked | PageNotLoaded | Successful int

datatype event =
    Launch
  | Goto
  | WaitTimeout int
  | ClickMore
  | PageContent
  | Progress jsdate int nat nat nat
  | Evaluated int article jsdate
  | Banner banner
  | ClosePage

subsection \<open>The page-level function\<close>

text \<open>
  Lines 148-150: the title of row \<open>i\<close>, the id attribute of score \<open>i\<close> without its
  first six characters (\<^verbatim>\<open>substring(6)\<close>), and the date of age \<open>i\<close>.
\<close>

definition article_info :: "article_table \<Rightarrow> nat \<Rightarrow> article" where
  "article_info tbl i =
     \<lparr> title = article_athings tbl ! i,
       article_id = drop 6 (article_scores tbl ! i),
       timestamp = article_ages tbl ! i \<rparr>"

text \<open>
  The \<^verbatim>\<open>for\<close> loop of lines 145-173, from index \<open>i\<close> on. Every evaluated entry is
  logged with the bound it is compared to; an entry newer than the bound ends the
  process with \<^verbatim>\<open>process.exit(-1)\<close>, otherwise the entry's timestamp becomes the
  bound and the index moves on. The loop returns the updated pair.
\<close>

function check_from ::
  "article_table \<Rightarrow> int \<Rightarrow> nat \<Rightarrow> int \<Rightarrow> jsdate \<Rightarrow> event list \<times> (outcome + int \<times> jsdate)" where
  "check_from tbl num i article_index newest_timestamp =
     (if int i < num then
        (if date_gt (timestamp (article_info tbl i)) newest_timestamp
         then ([Evaluated article_index (article_info tbl i) newest_timestamp,
                Banner OrderFailed], Inl (Exited (- 1)))
         else (case check_from tbl num (Suc i) (article_index + 1)
                      (timestamp (article_info tbl i)) of
                 (evs, r) \<Rightarrow>
                   (Evaluated article_index (article_info tbl i) newest_timestamp # evs, r)))
      else ([], Inr (article_index, newest_timestamp)))"
  by pat_completeness auto
termination
  by (relation "measure (\<lambda>(tbl, num, i, article_index, newest_timestamp). nat (num - int i))") auto

text \<open>
  \<^verbatim>\<open>validateArticlesOnPage\<close> of the first script (lines 109-182). The count check
  calls \<^verbatim>\<open>exit(-1)\<close>, a name the script never defines: the call throws a
  \<^verbatim>\<open>ReferenceError\<close> after the banner is printed.
\<close>

definition validateArticlesOnPage ::
  "article_table \<Rightarrow> int \<Rightarrow> int \<Rightarrow> jsdate \<Rightarrow> event list \<times> (outcome + int \<times> jsdate)" where
  "validateArticlesOnPage tbl article_index num_of_articles_to_validate newest_timestamp =
     (let count_ages = length (article_ages tbl);
          count_athings = length (article_athings tbl);
          count_scores = length (article_scores tbl)
      in if count_ages \<noteq> count_athings \<or> count_ages \<noteq> count_scores
         then ([Banner CountMismatch], Inl (Uncaught ReferenceError))
         else
           (let num_of_articles_to_check_on_page =
                  min (int count_athings) (num_of_articles_to_validate - article_index + 1)
            in case check_from tbl num_of_articles_to_check_on_page 0 article_index
                      newest_timestamp of
                 (evs, Inl out) \<Rightarrow>
                   (Progress newest_timestamp article_index count_athings count_ages
                      count_scores # evs, Inl out)
               | (evs, Inr r) \<Rightarrow>
                   (Progress newest_timestamp article_index count_athings count_ages
                      count_scores # evs @ [Banner PageChecked], Inr r)))"

subsection \<open>The main function of the first script\<close>

text \<open>
  Line 190. \<open>r\<close> is the value \<^verbatim>\<open>Math.random()\<close> returns, a number with
  \<open>0 \<le> r < 1\<close>.
\<close>

definition random_delay :: "int \<Rightarrow> int \<Rightarrow> rat \<Rightarrow> int" where
  "random_delay ms_min_time ms_range r = ms_min_time + \<lfloor>r * of_int ms_range\<rfloor>"

text \<open>
  The \<^verbatim>\<open>while\<close> loop of lines 54-88. \<open>site k\<close> is the page the browser shows after
  \<open>k\<close> clicks on "More" (\<open>site 0\<close> is the page \<^verbatim>\<open>page.goto\<close> loads), \<open>rnd j\<close> is the
  \<open>j\<close>-th value of \<^verbatim>\<open>Math.random()\<close>, and the first argument bounds the number of
  iterations: the loop has no bound of its own, and \<open>None\<close> says that it is still
  running when the iterations are used up. One iteration waits, clicks "More" (the
  click throws unless the shown page has exactly one such link), waits again, ends the
  process when the new page has not exactly one "More" link, waits for the three
  selectors (each wait throws when nothing becomes visible) and calls
  \<^verbatim>\<open>validateArticlesOnPage\<close> on the new page's article table.
\<close>

fun sortHackerNewsArticles_loop ::
  "nat \<Rightarrow> (nat \<Rightarrow> page) \<Rightarrow> (nat \<Rightarrow> rat) \<Rightarrow> int \<Rightarrow> nat \<Rightarrow> int \<Rightarrow> jsdate
     \<Rightarrow> (event list \<times> (outcome + int \<times> jsdate)) option" where
  "sortHackerNewsArticles_loop 0 site rnd num_of_articles_to_validate k article_index
      newest_timestamp =
     (if article_index \<le> num_of_articles_to_validate then None
      else Some ([], Inr (article_index, newest_timestamp)))"
| "sortHackerNewsArticles_loop (Suc fuel) site rnd num_of_articles_to_validate k article_index
      newest_timestamp =
     (if article_index \<le> num_of_articles_to_validate then
        (if morelink_count (site k) \<noteq> 1
         then Some ([WaitTimeout (random_delay 200 800 (rnd (2 * k)))], Inl (Uncaught ClickError))
         else if morelink_count (site (Suc k)) \<noteq> 1
         then Some ([WaitTimeout (random_delay 200 800 (rnd (2 * k))), ClickMore,
                     WaitTimeout (random_delay 200 800 (rnd (2 * k + 1))),
                     Banner PageNotLoaded, PageContent], Inl (Exited (- 1)))
         else if \<not> (age_visible (site (Suc k)) \<and> athing_visible (site (Suc k))
                     \<and> score_visible (site (Suc k)))
         then Some ([WaitTimeout (random_delay 200 800 (rnd (2 * k))), ClickMore,
                     WaitTimeout (random_delay 200 800 (rnd (2 * k + 1)))],
                    Inl (Uncaught TimeoutError))
         else
           (case validateArticlesOnPage (page_table (site (Suc k))) article_index
                   num_of_articles_to_validate newest_timestamp of
              (evs, Inl out) \<Rightarrow>
                Some ([WaitTimeout (random_delay 200 800 (rnd (2 * k))), ClickMore,
                       WaitTimeout (random_delay 200 800 (rnd (2 * k + 1)))] @ evs, Inl out)
            | (evs, Inr (article_index', newest_timestamp')) \<Rightarrow>
                (case sortHackerNewsArticles_loop fuel site rnd num_of_articles_to_validate
                        (Suc k) article_index' newest_timestamp' of
                   None \<Rightarrow> None
                 | Some (rest, r) \<Rightarrow>
                     Some ([WaitTimeout (random_delay 200 800 (rnd (2 * k))), ClickMore,
                            WaitTimeout (random_delay 200 800 (rnd (2 * k + 1)))]
                           @ evs @ rest, r))))
      else Some ([], Inr (article_index, newest_timestamp)))"

text \<open>
  \<^verbatim>\<open>sortHackerNewsArticles\<close> (lines 28-99): launch the browser, load the listing,
  expect exactly one "More" link (the expectation throws otherwise), run the loop from
  \<open>article_index = 1\<close> with the start of the run as the first bound, then close the
  page, print the success banner and \<^verbatim>\<open>process.exit(0)\<close>. The script fixes
  \<open>num_of_articles_to_validate\<close> to 100 and takes \<^verbatim>\<open>new Date()\<close> as the first bound;
  both are parameters here.
\<close>

definition sortHackerNewsArticles ::
  "nat \<Rightarrow> int \<Rightarrow> int \<Rightarrow> (nat \<Rightarrow> page) \<Rightarrow> (nat \<Rightarrow> rat) \<Rightarrow> (event list \<times> outcome) option" where
  "sortHackerNewsArticles fuel num_of_articles_to_validate now site rnd =
     (if morelink_count (site 0) \<noteq> 1 then Some ([Launch, Goto], Uncaught ExpectError)
      else
        (case sortHackerNewsArticles_loop fuel site rnd num_of_articles_to_validate 0 1
                (Some now) of
           None \<Rightarrow> None
         | Some (evs, Inl out) \<Rightarrow> Some ([Launch, Goto] @ evs, out)
         | Some (evs, Inr r) \<Rightarrow>
             Some ([Launch, Goto] @ evs
                   @ [ClosePage, Banner (Successful num_of_articles_to_validate)], Exited 0)))"

subsection \<open>The third script\<close>

text \<open>
  The third script of \<^verbatim>\<open>part_000\<close> (lines 362-491) is an earlier version.
  Its \<^verbatim>\<open>validateArticlesOnPage\<close> (lines 412-486) takes the page, waits for the
  second nested table and for the three selectors (each wait throws when nothing becomes
  visible), makes the same count check, and bounds the loop by
  \<^verbatim>\<open>Math.min(count_athings, num_of_articles_to_validate - article_index)\<close> (line 451).
  The loop of lines 454-479 is the loop of lines 145-173.
\<close>

definition validateArticlesOnPage3 ::
  "page \<Rightarrow> int \<Rightarrow> int \<Rightarrow> jsdate \<Rightarrow> event list \<times> (outcome + int \<times> jsdate)" where
  "validateArticlesOnPage3 p article_index num_of_articles_to_validate newest_timestamp =
     (if \<not> table_visible p then ([], Inl (Uncaught TimeoutError))
      else if \<not> (age_visible p \<and> athing_visible p \<and> score_visible p)
      then ([], Inl (Uncaught TimeoutError))
      else
        (let count_ages = length (article_ages (page_table p));
             count_athings = length (article_athings (page_table p));
             count_scores = length (article_scores (page_table p))
         in if count_ages \<noteq> count_athings \<or> count_ages \<noteq> count_scores
            then ([Banner CountMismatch], Inl (Uncaught ReferenceError))
            else
              (let num_of_articles_to_check_on_page =
                     min (int count_athings) (num_of_articles_to_validate - article_index)
               in case check_from (page_table p) num_of_articles_to_check_on_page 0
                         article_index newest_timestamp of
                    (evs, Inl out) \<Rightarrow>
                      (Progress newest_timestamp article_index count_athings count_ages
                         count_scores # evs, Inl out)
                  | (evs, Inr r) \<Rightarrow>
                      (Progress newest_timestamp article_index count_athings count_ages
                         count_scores # evs @ [Banner PageChecked], Inr r))))"

text \<open>
  The main function of the third script (lines 372-409): while
  \<^verbatim>\<open>article_index < num_of_articles_to_validate\<close>, load the listing at the offset
  \<open>article_index\<close> (\<open>site n\<close> is the page the offset \<open>n\<close> yields), wait for
  \<^verbatim>\<open>.age\<close> and validate the page; then close the page and \<^verbatim>\<open>process.exit(0)\<close>.
  The first argument bounds the number of iterations, as above.
\<close>

fun sortHackerNewsArticles3_loop ::
  "nat \<Rightarrow> (int \<Rightarrow> page) \<Rightarrow> int \<Rightarrow> int \<Rightarrow> jsdate
     \<Rightarrow> (event list \<times> (outcome + int \<times> jsdate)) option" where
  "sortHackerNewsArticles3_loop 0 site num_of_articles_to_validate article_index
      newest_timestamp =
     (if article_index < num_of_articles_to_validate then None
      else Some ([], Inr (article_index, newest_timestamp)))"
| "sortHackerNewsArticles3_loop (Suc fuel) site num_of_articles_to_validate article_index
      newest_timestamp =
     (if article_index < num_of_articles_to_validate then
        (if \<not> age_visible (site article_index)
         then Some ([Goto], Inl (Uncaught TimeoutError))
         else
           (case validateArticlesOnPage3 (site article_index) article_index
                   num_of_articles_to_validate newest_timestamp of
              (evs, Inl out) \<Rightarrow> Some (Goto # evs, Inl out)
            | (evs, Inr (article_index', newest_timestamp')) \<Rightarrow>
                (case sortHackerNewsArticles3_loop fuel site num_of_articles_to_validate
                        article_index' newest_timestamp' of
                   None \<Rightarrow> None
                 | Some (rest, r) \<Rightarrow> Some (Goto # evs @ rest, r))))
      else Some ([], Inr (article_index, newest_timestamp)))"

definition sortHackerNewsArticles3 ::
  "nat \<Rightarrow> int \<Rightarrow> int \<Rightarrow> (int \<Rightarrow> page) \<Rightarrow> (event list \<times> outcome) option" where
  "sortHackerNewsArticles3 fuel num_of_articles_to_validate now site =
     (case sortHackerNewsArticles3_loop fuel site num_of_articles_to_validate 1 (Some now) of
        None \<Rightarrow> None
      | Some (evs, Inl out) \<Rightarrow> Some (Launch # evs, out)
      | Some (evs, Inr r) \<Rightarrow> Some (Launch # evs @ [ClosePage], Exited 0))"

subsection \<open>Reading a run\<close>

text \<open>The entries a run evaluated, in order, and their timestamps.\<close>

fun evaluated :: "event list \<Rightarrow> article list" where
  "evaluated [] = []"
| "evaluated (Evaluated n a b # es) = a # evaluated es"
| "evaluated (e # es) = evaluated es"

definition evaluated_timestamps :: "event list \<Rightarrow> jsdate list" where
  "evaluated_timestamps tr = map timestamp (evaluated tr)"

text \<open>The pages a run loaded: the first navigation and every click on "More".\<close>

definition page_loads :: "event list \<Rightarrow> nat" where
  "page_loads tr = length (filter (\<lambda>e. e = Goto \<or> e = ClickMore) tr)"

text \<open>
  The check of line 160 along a list of timestamps, starting from the bound \<open>b\<close>:
  no timestamp is greater than the one before it.
\<close>

fun accepted_from :: "jsdate \<Rightarrow> jsdate list \<Rightarrow> bool" where
  "accepted_from b [] = True"
| "accepted_from b (t # ts) = (\<not> date_gt t b \<and> accepted_from t ts)"

text \<open>Newest first: \<open>timestamp[i] \<ge> timestamp[i+1]\<close> for every adjacent pair.\<close>

fun newest_first :: "jsdate list \<Rightarrow> bool" where
  "newest_first (a # b # ts) = (date_ge a b \<and> newest_first (b # ts))"
| "newest_first ts = True"

text \<open>The clicks on "More" alone.\<close>

definition more_clicks :: "event list \<Rightarrow> nat" where
  "more_clicks tr = length (filter (\<lambda>e. e = ClickMore) tr)"

text \<open>
  How many entries each validated page evaluated: one number per progress header, the
  length of the run of evaluations that follows it.
\<close>

fun is_evaluated :: "event \<Rightarrow> bool" where
  "is_evaluated (Evaluated n a b) = True"
| "is_evaluated e = False"

fun entries_per_page :: "event list \<Rightarrow> nat list" where
  "entries_per_page [] = []"
| "entries_per_page (Progress b n c1 c2 c3 # es) =
     length (takeWhile is_evaluated es) # entries_per_page es"
| "entries_per_page (e # es) = entries_per_page es"

text \<open>The banners that report a failure.\<close>

definition failure_banner :: "event \<Rightarrow> bool" where
  "failure_banner e =
     (e = Banner OrderFailed \<or> e = Banner CountMismatch \<or> e = Banner PageNotLoaded)"

text \<open>A run without its pacing delays.\<close>

fun is_wait :: "event \<Rightarrow> bool" where
  "is_wait (WaitTimeout d) = True"
| "is_wait e = False"

definition without_waits :: "event list \<times> 'a \<Rightarrow> event list \<times> 'a" where
  "without_waits run = (filter (\<lambda>e. \<not> is_wait e) (fst run), snd run)"

text \<open>
  A page the loop of the first script accepts as loaded: exactly one "More" link and
  the three selectors visible.
\<close>

definition loaded :: "page \<Rightarrow> bool" where
  "loaded p = (morelink_count p = 1 \<and> age_visible p \<and> athing_visible p \<and> score_visible p)"

text \<open>A table that passes the count check of line 124.\<close>

definition same_counts :: "article_table \<Rightarrow> bool" where
  "same_counts tbl = (length (article_ages tbl) = length (article_athings tbl)
                      \<and> length (article_ages tbl) = length (article_scores tbl))"

text \<open>A table whose three counts are all \<open>n\<close>.\<close>

definition counts :: "article_table \<Rightarrow> nat \<Rightarrow> bool" where
  "counts tbl n = (length (article_ages tbl) = n \<and> length (article_athings tbl) = n
                   \<and> length (article_scores tbl) = n)"

text \<open>
  The bound that entry \<open>i\<close> of a page meets at line 160 when the page is entered with
  the bound \<open>b\<close>: \<open>b\<close> itself for the first entry, the timestamp of the entry before it
  otherwise (line 169).
\<close>

definition bound_before :: "article_table \<Rightarrow> jsdate \<Rightarrow> nat \<Rightarrow> jsdate" where
  "bound_before tbl b i = (if i = 0 then b else article_ages tbl ! (i - 1))"

subsection \<open>Concrete pages\<close>

text \<open>
  A table with one row per timestamp, and the scenarios of the specification with the
  time of day in milliseconds: 10:00, 09:59, 09:58 (A); 10:00, 10:01 (B); five
  timestamps and four titles (C). The run starts at 12:00.
\<close>

definition rows :: "jsdate list \<Rightarrow> article_table" where
  "rows ts = \<lparr> article_ages = ts,
               article_athings = map (\<lambda>t. ''Story'') ts,
               article_scores = map (\<lambda>t. ''score_1'') ts \<rparr>"

definition noon :: int where
  "noon = 43200000"

definition scenario_A :: article_table where
  "scenario_A = rows [Some 36000000, Some 35940000, Some 35880000]"

definition scenario_B :: article_table where
  "scenario_B = rows [Some 36000000, Some 36060000]"

definition scenario_C :: article_table where
  "scenario_C = \<lparr> article_ages = [Some 5, Some 4, Some 3, Some 2, Some 1],
                   article_athings = [''a'', ''b'', ''c'', ''d''],
                   article_scores = [''score_1'', ''score_2'', ''score_3'', ''score_4'', ''score_5''] \<rparr>"

text \<open>
  10:00, an age whose title attribute does not parse, 10:01; and an unparsable age
  followed by 10:00 and 10:01.
\<close>

definition scenario_invalid :: article_table where
  "scenario_invalid = rows [Some 36000000, None, Some 36060000]"

definition scenario_invalid_first :: article_table where
  "scenario_invalid_first = rows [None, Some 36000000, Some 36060000]"

text \<open>
  A page with one "More" link on which every wait succeeds, the site that shows the same
  table after every click, and a listing of 30 rows per page whose entries are one second
  apart, newest first: by the number of clicks (first script) and by the offset of the
  first entry (third script).
\<close>

definition page_of :: "article_table \<Rightarrow> page" where
  "page_of tbl = \<lparr> morelink_count = 1, age_visible = True, athing_visible = True,
                   score_visible = True, table_visible = True, page_table = tbl \<rparr>"

definition site_of :: "article_table \<Rightarrow> nat \<Rightarrow> page" where
  "site_of tbl k = page_of tbl"

definition site30 :: "nat \<Rightarrow> page" where
  "site30 k = page_of (rows (map (\<lambda>j. Some (noon - 1000 * (30 * int k + int j))) [0..<30]))"

definition offset30 :: "int \<Rightarrow> page" where
  "offset30 n = page_of (rows (map (\<lambda>j. Some (noon - 1000 * (n + int j))) [0..<30]))"

text \<open>The same listing when the first page shows no "More" link.\<close>

definition site30_no_more :: "nat \<Rightarrow> page" where
  "site30_no_more k = (if k = 0 then (site30 0)\<lparr> morelink_count := 0 \<rparr> else site30 k)"

text \<open>
  A page whose article table is empty while the page-wide selectors still match, and
  such a page on which nothing matches \<^verbatim>\<open>.age\<close>.
\<close>

definition blank_page :: page where
  "blank_page = page_of (rows [])"

definition bare_page :: page where
  "bare_page = blank_page \<lparr> age_visible := False \<rparr>"

definition site_bare :: "nat \<Rightarrow> page" where
  "site_bare k = bare_page"

text \<open>The listing of 30 rows per page when the first page shows scenario B instead.\<close>

definition site30_shuffled :: "nat \<Rightarrow> page" where
  "site30_shuffled k = (if k = 0 then page_of scenario_B else site30 k)"

text \<open>
  The listing of 30 rows per page when the page after the first click shows two "More"
  links, and when that page is a blank page.
\<close>

definition site30_two_more :: "nat \<Rightarrow> page" where
  "site30_two_more k = (if k = 1 then (site30 1)\<lparr> morelink_count := 2 \<rparr> else site30 k)"

definition site30_blank_first :: "nat \<Rightarrow> page" where
  "site30_blank_first k = (if k = 1 then blank_page else site30 k)"

text \<open>Two sources of pacing delays.\<close>

definition rnd_zero :: "nat \<Rightarrow> rat" where
  "rnd_zero j = 0"

definition rnd_half :: "nat \<Rightarrow> rat" where
  "rnd_half j = 1 / 2"

text \<open>
  Runs of the first script: three entries wanted on scenario A, two on scenario B and
  two on scenario C.
\<close>

definition run_A :: "(event list \<times> outcome) option" where
  "run_A = sortHackerNewsArticles 1 3 noon (site_of scenario_A) rnd_zero"

definition run_B :: "(event list \<times> outcome) option" where
  "run_B = sortHackerNewsArticles 1 2 noon (site_of scenario_B) rnd_zero"

definition run_C :: "(event list \<times> outcome) option" where
  "run_C = sortHackerNewsArticles 1 2 noon (site_of scenario_C) rnd_zero"

text \<open>
  Three entries wanted on the page with the unparsable age, and no entry wanted on the
  listing of 30 rows per page.
\<close>

definition run_invalid :: "(event list \<times> outcome) option" where
  "run_invalid = sortHackerNewsArticles 1 3 noon (site_of scenario_invalid) rnd_zero"

definition run_zero :: "(event list \<times> outcome) option" where
  "run_zero = sortHackerNewsArticles 0 0 noon site30 rnd_zero"

text \<open>Scenario D: a hundred entries wanted on the listing of 30 rows per page.\<close>

definition run_D :: "(event list \<times> outcome) option" where
  "run_D = sortHackerNewsArticles 4 100 noon site30 rnd_zero"

text \<open>
  A hundred entries wanted on the listing with two "More" links after the first click,
  on the listing that shows a blank page after the first click, and on the site of
  pages without a visible age.
\<close>

definition run_two_more :: "(event list \<times> outcome) option" where
  "run_two_more = sortHackerNewsArticles 4 100 noon site30_two_more rnd_zero"

definition run_blank_first :: "(event list \<times> outcome) option" where
  "run_blank_first = sortHackerNewsArticles 5 100 noon site30_blank_first rnd_zero"

definition run_bare :: "(event list \<times> outcome) option" where
  "run_bare = sortHackerNewsArticles 1 100 noon site_bare rnd_zero"

text \<open>The third script with a hundred entries wanted on the same listing.\<close>


definition run3_D :: "(event list \<times> outcome) option" where
  "run3_D = sortHackerNewsArticles3 4 100 noon offset30"

text \<open>The third script with no entry wanted.\<close>

definition run3_zero :: "(event list \<times> outcome) option" where
  "run3_zero = sortHackerNewsArticles3 0 0 noon offset30"

section \<open>Properties\<close>

subsection \<open>The loop over one page\<close>

declare check_from.simps [simp del]

lemma evaluated_append: "evaluated (xs @ ys) = evaluated xs @ evaluated ys"
  by (induction xs rule: evaluated.induct) auto

lemma accepted_from_append:
  "accepted_from b (xs @ ys) = (accepted_from b xs \<and> accepted_from (last (b # xs)) ys)"
  by (induction xs arbitrary: b) auto

lemma date_gt_irrefl: "\<not> date_gt t t"
  by (simp add: date_gt_def split: option.splits)

lemma timestamp_article_info: "timestamp (article_info tbl i) = article_ages tbl ! i"
  by (simp add: article_info_def)

lemma check_from_returns:
  "check_from tbl num i idx b = (evs, Inr (idx', b')) \<Longrightarrow>
     evaluated evs = map (article_info tbl) [i..<nat num]
     \<and> idx' = idx + int (length (evaluated evs))
     \<and> accepted_from b (map timestamp (evaluated evs))
     \<and> b' = last (b # map timestamp (evaluated evs))"
proof (induction tbl num i idx b arbitrary: evs rule: check_from.induct)
  case (1 tbl num i idx b)
  show ?case
  proof (cases "int i < num")
    case False
    with "1.prems" show ?thesis
      by (simp add: check_from.simps)
  next
    case True
    let ?a = "article_info tbl i"
    from True "1.prems" have ok: "\<not> date_gt (timestamp ?a) b"
      by (auto simp: check_from.simps[of tbl num i])
    obtain evs1 r where rec: "check_from tbl num (Suc i) (idx + 1) (timestamp ?a) = (evs1, r)"
      by (cases "check_from tbl num (Suc i) (idx + 1) (timestamp ?a)") auto
    from True ok rec "1.prems" have evs: "evs = Evaluated idx ?a b # evs1" and r: "r = Inr (idx', b')"
      by (auto simp: check_from.simps[of tbl num i])
    from rec r have rec': "check_from tbl num (Suc i) (idx + 1) (timestamp ?a) = (evs1, Inr (idx', b'))"
      by simp
    note IH = "1.IH"[OF True ok rec']
    from True have upt: "[i..<nat num] = i # [Suc i..<nat num]"
      by (simp add: upt_conv_Cons)
    have e: "evaluated evs = ?a # evaluated evs1"
      by (simp add: evs)
    have "evaluated evs = map (article_info tbl) [i..<nat num]"
      using IH by (simp add: e upt)
    moreover have "idx' = idx + int (length (evaluated evs))"
      using conjunct1[OF conjunct2[OF IH]] by (simp add: e)
    moreover have "accepted_from b (map timestamp (evaluated evs))"
      using conjunct1[OF conjunct2[OF conjunct2[OF IH]]] ok by (simp add: e)
    moreover have "b' = last (b # map timestamp (evaluated evs))"
      using conjunct2[OF conjunct2[OF conjunct2[OF IH]]] by (simp add: e)
    ultimately show ?thesis by blast
  qed
qed

lemma check_from_exits:
  "check_from tbl num i idx b = (evs, Inl out) \<Longrightarrow>
     out = Exited (- 1)
     \<and> \<not> accepted_from b (map timestamp (evaluated evs))
     \<and> (\<exists>j. i \<le> j \<and> int j < num \<and> evaluated evs = map (article_info tbl) [i..<Suc j])
     \<and> ClosePage \<notin> set evs"
proof (induction tbl num i idx b arbitrary: evs rule: check_from.induct)
  case (1 tbl num i idx b)
  show ?case
  proof (cases "int i < num")
    case False
    with "1.prems" show ?thesis
      by (simp add: check_from.simps)
  next
    case True
    let ?a = "article_info tbl i"
    show ?thesis
    proof (cases "date_gt (timestamp ?a) b")
      case gt: True
      with True "1.prems" have "evs = [Evaluated idx ?a b, Banner OrderFailed]" "out = Exited (- 1)"
        by (auto simp: check_from.simps[of tbl num i])
      with gt True show ?thesis
        by (intro conjI exI[of _ i]) simp_all
    next
      case ok: False
      obtain evs1 r where rec: "check_from tbl num (Suc i) (idx + 1) (timestamp ?a) = (evs1, r)"
        by (cases "check_from tbl num (Suc i) (idx + 1) (timestamp ?a)") auto
      from True ok rec "1.prems" have evs: "evs = Evaluated idx ?a b # evs1" and r: "r = Inl out"
        by (auto simp: check_from.simps[of tbl num i])
      from rec r have rec': "check_from tbl num (Suc i) (idx + 1) (timestamp ?a) = (evs1, Inl out)"
        by simp
      note IH = "1.IH"[OF True ok rec']
      then obtain j where j: "Suc i \<le> j" "int j < num"
          "evaluated evs1 = map (article_info tbl) [Suc i..<Suc j]"
        by blast
      have e: "evaluated evs = ?a # evaluated evs1"
        by (simp add: evs)
      from j have upt: "[i..<Suc j] = i # [Suc i..<Suc j]"
        by (simp add: upt_conv_Cons)
      have "evaluated evs = map (article_info tbl) [i..<Suc j]"
        unfolding e upt using j(3) by simp
      with j have "\<exists>j. i \<le> j \<and> int j < num \<and> evaluated evs = map (article_info tbl) [i..<Suc j]"
        by (intro exI[of _ j]) simp
      moreover have "\<not> accepted_from b (map timestamp (evaluated evs))"
        using conjunct1[OF conjunct2[OF IH]] by (simp add: e)
      moreover have "ClosePage \<notin> set evs"
        using conjunct2[OF conjunct2[OF conjunct2[OF IH]]] by (simp add: evs)
      ultimately show ?thesis using IH by blast
    qed
  qed
qed

lemma check_from_no_close: "ClosePage \<notin> set (fst (check_from tbl num i idx b))"
proof (induction tbl num i idx b rule: check_from.induct)
  case (1 tbl num i idx b)
  then show ?case
    by (subst check_from.simps) (auto split: prod.splits)
qed

lemma map_timestamp_info: "map timestamp (map (article_info tbl) is) = map ((!) (article_ages tbl)) is"
  by (simp add: article_info_def)

lemma last_bound: "last (b # map ((!) (article_ages tbl)) [0..<m]) = bound_before tbl b m"
  by (cases m) (simp_all add: bound_before_def)

lemma accepted_upto:
  "accepted_from b (map ((!) (article_ages tbl)) [0..<m])
     = (\<forall>i<m. \<not> date_gt (article_ages tbl ! i) (bound_before tbl b i))"
proof (induction m)
  case 0
  show ?case by simp
next
  case (Suc m)
  have "accepted_from b (map ((!) (article_ages tbl)) [0..<Suc m])
      = (accepted_from b (map ((!) (article_ages tbl)) [0..<m])
         \<and> \<not> date_gt (article_ages tbl ! m) (bound_before tbl b m))"
    using last_bound[of b tbl m] by (simp add: accepted_from_append del: last.simps)
  with Suc show ?case
    by (auto simp: less_Suc_eq)
qed

lemma validate_consistent:
  assumes "length (article_ages tbl) = length (article_athings tbl)"
      and "length (article_ages tbl) = length (article_scores tbl)"
      and "check_from tbl (min (int (length (article_athings tbl))) (T - idx + 1)) 0 idx b = (evs, r)"
  shows "validateArticlesOnPage tbl idx T b =
     (Progress b idx (length (article_athings tbl)) (length (article_ages tbl))
        (length (article_scores tbl))
        # evs @ (case r of Inl out \<Rightarrow> [] | Inr c \<Rightarrow> [Banner PageChecked]), r)"
  using assms by (cases r) (simp_all add: validateArticlesOnPage_def Let_def)

lemma validate_mismatch:
  assumes "length (article_ages tbl) \<noteq> length (article_athings tbl)
           \<or> length (article_ages tbl) \<noteq> length (article_scores tbl)"
  shows "validateArticlesOnPage tbl idx T b = ([Banner CountMismatch], Inl (Uncaught ReferenceError))"
  using assms by (auto simp: validateArticlesOnPage_def Let_def)

lemma validate_returns:
  assumes "validateArticlesOnPage tbl idx T b = (evs, Inr (idx', b'))"
  shows "evaluated evs = map (article_info tbl)
            [0..<nat (min (int (length (article_athings tbl))) (T - idx + 1))]"
    and "idx' = idx + int (length (evaluated evs))"
    and "accepted_from b (evaluated_timestamps evs)"
    and "b' = last (b # evaluated_timestamps evs)"
    and "ClosePage \<notin> set evs"
    and "length (article_ages tbl) = length (article_athings tbl)"
    and "length (article_ages tbl) = length (article_scores tbl)"
proof -
  let ?n = "min (int (length (article_athings tbl))) (T - idx + 1)"
  show c1: "length (article_ages tbl) = length (article_athings tbl)"
    using assms validate_mismatch[of tbl idx T b] by fastforce
  show c2: "length (article_ages tbl) = length (article_scores tbl)"
    using assms validate_mismatch[of tbl idx T b] by fastforce
  obtain evs1 r where cf: "check_from tbl ?n 0 idx b = (evs1, r)"
    by (cases "check_from tbl ?n 0 idx b") auto
  from validate_consistent[OF c1 c2 cf] assms
  have r: "r = Inr (idx', b')"
    and evs: "evs = Progress b idx (length (article_athings tbl)) (length (article_ages tbl))
        (length (article_scores tbl)) # evs1 @ [Banner PageChecked]"
    by auto
  have e: "evaluated evs = evaluated evs1"
    by (simp add: evs evaluated_append)
  note L = check_from_returns[OF cf[unfolded r]]
  show "evaluated evs = map (article_info tbl) [0..<nat ?n]"
    using conjunct1[OF L] by (simp add: e)
  show "idx' = idx + int (length (evaluated evs))"
    using conjunct1[OF conjunct2[OF L]] by (simp add: e)
  show "accepted_from b (evaluated_timestamps evs)"
    using conjunct1[OF conjunct2[OF conjunct2[OF L]]] by (simp add: e evaluated_timestamps_def)
  show "b' = last (b # evaluated_timestamps evs)"
    using conjunct2[OF conjunct2[OF conjunct2[OF L]]] by (simp add: e evaluated_timestamps_def)
  have "ClosePage \<notin> set evs1"
    using check_from_no_close[of tbl ?n 0 idx b] cf by simp
  then show "ClosePage \<notin> set evs"
    by (simp add: evs)
qed

lemma validate_exits:
  assumes "validateArticlesOnPage tbl idx T b = (evs, Inl out)"
  shows "(out = Uncaught ReferenceError \<and> evs = [Banner CountMismatch]
          \<and> \<not> (length (article_ages tbl) = length (article_athings tbl)
                 \<and> length (article_ages tbl) = length (article_scores tbl)))
         \<or> (out = Exited (- 1) \<and> \<not> accepted_from b (evaluated_timestamps evs)
             \<and> length (article_ages tbl) = length (article_athings tbl)
             \<and> length (article_ages tbl) = length (article_scores tbl))"
    and "ClosePage \<notin> set evs"
    and "int (length (evaluated evs)) \<le> max 0 (min (int (length (article_athings tbl))) (T - idx + 1))"
proof -
  let ?n = "min (int (length (article_athings tbl))) (T - idx + 1)"
  obtain evs1 r where cf: "check_from tbl ?n 0 idx b = (evs1, r)"
    by (cases "check_from tbl ?n 0 idx b") auto
  show "(out = Uncaught ReferenceError \<and> evs = [Banner CountMismatch]
          \<and> \<not> (length (article_ages tbl) = length (article_athings tbl)
                 \<and> length (article_ages tbl) = length (article_scores tbl)))
         \<or> (out = Exited (- 1) \<and> \<not> accepted_from b (evaluated_timestamps evs)
             \<and> length (article_ages tbl) = length (article_athings tbl)
             \<and> length (article_ages tbl) = length (article_scores tbl))"
  proof (cases "length (article_ages tbl) \<noteq> length (article_athings tbl)
           \<or> length (article_ages tbl) \<noteq> length (article_scores tbl)")
    case True
    from validate_mismatch[OF True, of idx T b] assms True show ?thesis by auto
  next
    case False
    then have c1: "length (article_ages tbl) = length (article_athings tbl)"
      and c2: "length (article_ages tbl) = length (article_scores tbl)" by simp_all
    from validate_consistent[OF c1 c2 cf] assms
    have r: "r = Inl out"
      and evs: "evs = Progress b idx (length (article_athings tbl)) (length (article_ages tbl))
        (length (article_scores tbl)) # evs1"
      by auto
    have e: "evaluated evs = evaluated evs1"
      by (simp add: evs)
    note L = check_from_exits[OF cf[unfolded r]]
    have "out = Exited (- 1)" using conjunct1[OF L] .
    moreover have "\<not> accepted_from b (evaluated_timestamps evs)"
      using conjunct1[OF conjunct2[OF L]] by (simp add: e evaluated_timestamps_def)
    ultimately show ?thesis using c1 c2 by blast
  qed
  show "ClosePage \<notin> set evs"
  proof (cases "length (article_ages tbl) \<noteq> length (article_athings tbl)
           \<or> length (article_ages tbl) \<noteq> length (article_scores tbl)")
    case True
    from validate_mismatch[OF True, of idx T b] assms show ?thesis by simp
  next
    case False
    then have c1: "length (article_ages tbl) = length (article_athings tbl)"
      and c2: "length (article_ages tbl) = length (article_scores tbl)" by simp_all
    from validate_consistent[OF c1 c2 cf] assms
    have evs: "evs = Progress b idx (length (article_athings tbl)) (length (article_ages tbl))
        (length (article_scores tbl)) # evs1" and r: "r = Inl out"
      by auto
    then show ?thesis
      using check_from_no_close[of tbl ?n 0 idx b] cf by simp
  qed
  show "int (length (evaluated evs)) \<le> max 0 ?n"
  proof (cases "length (article_ages tbl) \<noteq> length (article_athings tbl)
           \<or> length (article_ages tbl) \<noteq> length (article_scores tbl)")
    case True
    from validate_mismatch[OF True, of idx T b] assms show ?thesis by simp
  next
    case False
    then have c1: "length (article_ages tbl) = length (article_athings tbl)"
      and c2: "length (article_ages tbl) = length (article_scores tbl)" by simp_all
    from validate_consistent[OF c1 c2 cf] assms
    have evs: "evs = Progress b idx (length (article_athings tbl)) (length (article_ages tbl))
        (length (article_scores tbl)) # evs1" and r: "r = Inl out"
      by auto
    from check_from_exits[OF cf[unfolded r]]
    obtain j where j: "int j < ?n" "evaluated evs1 = map (article_info tbl) [0..<Suc j]"
      by blast
    have "length (evaluated evs) = Suc j"
      by (simp add: evs j(2))
    with j(1) show ?thesis by simp
  qed
qed

lemma loop_done:
  "\<not> idx \<le> T \<Longrightarrow> sortHackerNewsArticles_loop fuel site rnd T k idx b = Some ([], Inr (idx, b))"
  by (cases fuel) simp_all

lemma loop_Suc_cases:
  assumes run: "sortHackerNewsArticles_loop (Suc fuel) site rnd T k idx b = Some (tr, r)"
      and le: "idx \<le> T"
  obtains
    (click) "morelink_count (site k) \<noteq> 1"
      "tr = [WaitTimeout (random_delay 200 800 (rnd (2 * k)))]" "r = Inl (Uncaught ClickError)"
  | (not_loaded) "morelink_count (site k) = 1" "morelink_count (site (Suc k)) \<noteq> 1"
      "tr = [WaitTimeout (random_delay 200 800 (rnd (2 * k))), ClickMore,
             WaitTimeout (random_delay 200 800 (rnd (2 * k + 1))), Banner PageNotLoaded, PageContent]"
      "r = Inl (Exited (- 1))"
  | (timeout) "morelink_count (site k) = 1" "morelink_count (site (Suc k)) = 1"
      "tr = [WaitTimeout (random_delay 200 800 (rnd (2 * k))), ClickMore,
             WaitTimeout (random_delay 200 800 (rnd (2 * k + 1)))]"
      "r = Inl (Uncaught TimeoutError)"
  | (page_exit) evs out where "morelink_count (site k) = 1" "morelink_count (site (Suc k)) = 1"
      "validateArticlesOnPage (page_table (site (Suc k))) idx T b = (evs, Inl out)"
      "tr = [WaitTimeout (random_delay 200 800 (rnd (2 * k))), ClickMore,
             WaitTimeout (random_delay 200 800 (rnd (2 * k + 1)))] @ evs"
      "r = Inl out"
  | (page_ok) evs idx' b' rest where "morelink_count (site k) = 1"
      "morelink_count (site (Suc k)) = 1"
      "validateArticlesOnPage (page_table (site (Suc k))) idx T b = (evs, Inr (idx', b'))"
      "sortHackerNewsArticles_loop fuel site rnd T (Suc k) idx' b' = Some (rest, r)"
      "tr = [WaitTimeout (random_delay 200 800 (rnd (2 * k))), ClickMore,
             WaitTimeout (random_delay 200 800 (rnd (2 * k + 1)))] @ evs @ rest"
  using run le
  by (auto split: if_splits prod.splits sum.splits option.splits)

lemma loop_returns:
  "sortHackerNewsArticles_loop fuel site rnd T k idx b = Some (tr, Inr (idx', b')) \<Longrightarrow>
   idx \<le> T + 1 \<Longrightarrow>
     idx' = T + 1 \<and> idx' = idx + int (length (evaluated tr))
     \<and> accepted_from b (evaluated_timestamps tr)
     \<and> b' = last (b # evaluated_timestamps tr)
     \<and> ClosePage \<notin> set tr"
proof (induction fuel arbitrary: k idx b tr)
  case 0
  then show ?case
    by (auto simp: evaluated_timestamps_def split: if_splits)
next
  case (Suc fuel)
  show ?case
  proof (cases "idx \<le> T")
    case False
    with Suc.prems loop_done[OF False, of "Suc fuel" site rnd k b] show ?thesis
      by (auto simp: evaluated_timestamps_def)
  next
    case True
    from Suc.prems(1) True show ?thesis
    proof (cases rule: loop_Suc_cases)
      case (page_ok evs i1 b1 rest)
      note V = validate_returns[OF page_ok(3)]
      have "int (length (evaluated evs)) \<le> T - idx + 1"
        using True by (simp add: V(1))
      with V(2) have i1: "i1 \<le> T + 1" by simp
      note IH = Suc.IH[OF page_ok(4) i1]
      have e: "evaluated tr = evaluated evs @ evaluated rest"
        by (simp add: page_ok(5) evaluated_append)
      have ts: "evaluated_timestamps tr = evaluated_timestamps evs @ evaluated_timestamps rest"
        by (simp add: e evaluated_timestamps_def)
      have "idx' = T + 1" using conjunct1[OF IH] .
      moreover have "idx' = idx + int (length (evaluated tr))"
        using conjunct1[OF conjunct2[OF IH]] V(2) by (simp add: e)
      moreover have "accepted_from b (evaluated_timestamps tr)"
        using conjunct1[OF conjunct2[OF conjunct2[OF IH]]] V(3) V(4)
        by (simp add: ts accepted_from_append del: last.simps)
      moreover have "b' = last (b # evaluated_timestamps tr)"
        using conjunct1[OF conjunct2[OF conjunct2[OF conjunct2[OF IH]]]] V(4)
        by (simp add: ts)
      moreover have "ClosePage \<notin> set tr"
        using conjunct2[OF conjunct2[OF conjunct2[OF conjunct2[OF IH]]]] V(5)
        by (simp add: page_ok(5))
      ultimately show ?thesis by blast
    qed simp_all
  qed
qed

lemma check_from_quiet:
  "check_from tbl num i idx b = (evs, Inr c) \<Longrightarrow> e \<in> set evs \<Longrightarrow> \<not> failure_banner e"
proof (induction tbl num i idx b arbitrary: evs rule: check_from.induct)
  case (1 tbl num i idx b)
  show ?case
  proof (cases "int i < num")
    case False
    with "1.prems" show ?thesis
      by (simp add: check_from.simps)
  next
    case True
    let ?a = "article_info tbl i"
    from True "1.prems" have ok: "\<not> date_gt (timestamp ?a) b"
      by (auto simp: check_from.simps[of tbl num i])
    obtain evs1 r where rec: "check_from tbl num (Suc i) (idx + 1) (timestamp ?a) = (evs1, r)"
      by (cases "check_from tbl num (Suc i) (idx + 1) (timestamp ?a)") auto
    from True ok rec "1.prems" have evs: "evs = Evaluated idx ?a b # evs1" and r: "r = Inr c"
      by (auto simp: check_from.simps[of tbl num i])
    from rec r have rec': "check_from tbl num (Suc i) (idx + 1) (timestamp ?a) = (evs1, Inr c)"
      by simp
    from "1.prems"(2) evs have "e = Evaluated idx ?a b \<or> e \<in> set evs1" by simp
    then show ?thesis
    proof
      assume "e = Evaluated idx ?a b"
      then show ?thesis by (simp add: failure_banner_def)
    next
      assume "e \<in> set evs1"
      from "1.IH"[OF True ok rec' this] show ?thesis .
    qed
  qed
qed

lemma validate_quiet:
  assumes "validateArticlesOnPage tbl idx T b = (evs, Inr c)" and "e \<in> set evs"
  shows "\<not> failure_banner e"
proof -
  let ?n = "min (int (length (article_athings tbl))) (T - idx + 1)"
  obtain idx' b' where c: "c = (idx', b')" by (cases c) auto
  note V = validate_returns[OF assms(1)[unfolded c]]
  obtain evs1 r where cf: "check_from tbl ?n 0 idx b = (evs1, r)"
    by (cases "check_from tbl ?n 0 idx b") auto
  from validate_consistent[OF V(6) V(7) cf] assms(1)
  have r: "r = Inr c"
    and evs: "evs = Progress b idx (length (article_athings tbl)) (length (article_ages tbl))
        (length (article_scores tbl)) # evs1 @ [Banner PageChecked]"
    by auto
  from assms(2) evs have "e = Progress b idx (length (article_athings tbl)) (length (article_ages tbl))
        (length (article_scores tbl)) \<or> e \<in> set evs1 \<or> e = Banner PageChecked"
    by auto
  then show ?thesis
    using check_from_quiet[OF cf[unfolded r]] by (auto simp: failure_banner_def)
qed

lemma loop_quiet:
  "sortHackerNewsArticles_loop fuel site rnd T k idx b = Some (tr, Inr c) \<Longrightarrow>
   e \<in> set tr \<Longrightarrow> \<not> failure_banner e"
proof (induction fuel arbitrary: k idx b tr)
  case 0
  then show ?case by (auto split: if_splits)
next
  case (Suc fuel)
  show ?case
  proof (cases "idx \<le> T")
    case False
    with Suc.prems loop_done[OF False, of "Suc fuel" site rnd k b] show ?thesis by auto
  next
    case True
    from Suc.prems(1) True show ?thesis
    proof (cases rule: loop_Suc_cases)
      case (page_ok evs i1 b1 rest)
      from Suc.prems(2) page_ok(5)
      have "e = WaitTimeout (random_delay 200 800 (rnd (2 * k))) \<or> e = ClickMore
          \<or> e = WaitTimeout (random_delay 200 800 (rnd (2 * k + 1)))
          \<or> e \<in> set evs \<or> e \<in> set rest"
        by auto
      then show ?thesis
        using validate_quiet[OF page_ok(3)] Suc.IH[OF page_ok(4)]
        by (auto simp: failure_banner_def)
    qed simp_all
  qed
qed

lemma loop_fails:
  "sortHackerNewsArticles_loop fuel site rnd T k idx b = Some (tr, Inl out) \<Longrightarrow>
   idx \<le> T + 1 \<Longrightarrow>
     (out = Exited (- 1) \<or> (\<exists>err. out = Uncaught err))
     \<and> ClosePage \<notin> set tr
     \<and> (int (length (evaluated tr)) < T + 1 - idx
         \<or> \<not> accepted_from b (evaluated_timestamps tr))"
proof (induction fuel arbitrary: k idx b tr)
  case 0
  then show ?case by (auto split: if_splits)
next
  case (Suc fuel)
  show ?case
  proof (cases "idx \<le> T")
    case False
    with Suc.prems loop_done[OF False, of "Suc fuel" site rnd k b] show ?thesis by auto
  next
    case True
    from Suc.prems(1) True show ?thesis
    proof (cases rule: loop_Suc_cases)
      case click
      with True show ?thesis by simp
    next
      case not_loaded
      with True show ?thesis by simp
    next
      case timeout
      with True show ?thesis by simp
    next
      case (page_exit evs out')
      note X = validate_exits[OF page_exit(3)]
      have e: "evaluated tr = evaluated evs"
        by (simp add: page_exit(4) evaluated_append)
      from X(1) have "int (length (evaluated tr)) < T + 1 - idx
         \<or> \<not> accepted_from b (evaluated_timestamps tr)"
        using True by (auto simp: e evaluated_timestamps_def)
      moreover from X(1) page_exit(5) have "out = Exited (- 1) \<or> (\<exists>err. out = Uncaught err)"
        by auto
      moreover from X(2) have "ClosePage \<notin> set tr"
        by (simp add: page_exit(4))
      ultimately show ?thesis by blast
    next
      case (page_ok evs i1 b1 rest)
      note V = validate_returns[OF page_ok(3)]
      have "int (length (evaluated evs)) \<le> T - idx + 1"
        using True by (simp add: V(1))
      with V(2) have i1: "i1 \<le> T + 1" by simp
      note IH = Suc.IH[OF page_ok(4) i1]
      have e: "evaluated tr = evaluated evs @ evaluated rest"
        by (simp add: page_ok(5) evaluated_append)
      have ts: "evaluated_timestamps tr = evaluated_timestamps evs @ evaluated_timestamps rest"
        by (simp add: e evaluated_timestamps_def)
      have "int (length (evaluated tr)) < T + 1 - idx
         \<or> \<not> accepted_from b (evaluated_timestamps tr)"
      proof (cases "int (length (evaluated rest)) < T + 1 - i1")
        case True
        with V(2) show ?thesis by (simp add: e)
      next
        case False
        with IH have "\<not> accepted_from b1 (evaluated_timestamps rest)" by blast
        with V(4) have "\<not> accepted_from b (evaluated_timestamps tr)"
          by (simp add: ts accepted_from_append del: last.simps)
        then show ?thesis ..
      qed
      moreover have "ClosePage \<notin> set tr"
        using conjunct1[OF conjunct2[OF IH]] V(5) by (simp add: page_ok(5))
      ultimately show ?thesis using conjunct1[OF IH] by blast
    qed
  qed
qed

lemma more_clicks_append: "more_clicks (xs @ ys) = more_clicks xs + more_clicks ys"
  by (simp add: more_clicks_def)

lemma page_loads_append: "page_loads (xs @ ys) = page_loads xs + page_loads ys"
  by (simp add: page_loads_def)

lemma check_from_no_navigation:
  "e \<in> set (fst (check_from tbl num i idx b)) \<Longrightarrow> e \<noteq> ClickMore \<and> e \<noteq> Goto"
proof (induction tbl num i idx b rule: check_from.induct)
  case (1 tbl num i idx b)
  from "1.prems" show ?case
    by (subst (asm) check_from.simps) (auto split: if_splits prod.splits dest: "1.IH")
qed

lemma validate_no_navigation:
  assumes "e \<in> set (fst (validateArticlesOnPage tbl idx T b))"
  shows "e \<noteq> ClickMore \<and> e \<noteq> Goto"
  using assms check_from_no_navigation[of e tbl "min (int (length (article_athings tbl))) (T - idx + 1)" 0 idx b]
  by (auto simp: validateArticlesOnPage_def Let_def split: if_splits prod.splits sum.splits)

lemma validate_loads:
  "more_clicks (fst (validateArticlesOnPage tbl idx T b)) = 0
   \<and> page_loads (fst (validateArticlesOnPage tbl idx T b)) = 0"
  using validate_no_navigation[of _ tbl idx T b]
  by (auto simp: more_clicks_def page_loads_def filter_empty_conv)

subsection \<open>The order check\<close>

text \<open>
  C1. On a page whose three counts agree, the page-level function ends the process
  with \<^verbatim>\<open>process.exit(-1)\<close> (exit status 255) exactly when some entry among the
  evaluated ones is strictly newer than the bound it meets; otherwise every entry is
  accepted, the index advances by the number of entries evaluated and the bound becomes
  the timestamp of the last one. A timestamp is never strictly newer than itself, so an
  entry equal to the bound is accepted.
\<close>

theorem order_check_decides:
  assumes "length (article_ages tbl) = length (article_athings tbl)"
      and "length (article_ages tbl) = length (article_scores tbl)"
  shows "snd (validateArticlesOnPage tbl idx T b) =
     (if \<exists>i. int i < min (int (length (article_athings tbl))) (T - idx + 1)
              \<and> date_gt (article_ages tbl ! i) (bound_before tbl b i)
      then Inl (Exited (- 1))
      else Inr (idx + max 0 (min (int (length (article_athings tbl))) (T - idx + 1)),
                bound_before tbl b (nat (min (int (length (article_athings tbl))) (T - idx + 1)))))
     \<and> exit_status (Exited (- 1)) \<noteq> 0
     \<and> \<not> date_gt t t"
proof -
  let ?n = "min (int (length (article_athings tbl))) (T - idx + 1)"
  let ?rej = "\<exists>i. int i < ?n \<and> date_gt (article_ages tbl ! i) (bound_before tbl b i)"
  obtain evs r where v: "validateArticlesOnPage tbl idx T b = (evs, r)"
    by (cases "validateArticlesOnPage tbl idx T b") auto
  have "r = (if ?rej then Inl (Exited (- 1))
             else Inr (idx + max 0 ?n, bound_before tbl b (nat ?n)))"
  proof (cases r)
    case (Inl out)
    obtain evs1 r1 where cf: "check_from tbl ?n 0 idx b = (evs1, r1)"
      by (cases "check_from tbl ?n 0 idx b") auto
    from validate_consistent[OF assms cf] v Inl
    have r1: "r1 = Inl out" and ev: "evaluated evs = evaluated evs1" by auto
    note L = check_from_exits[OF cf[unfolded r1]]
    have out: "out = Exited (- 1)" using conjunct1[OF L] .
    have na: "\<not> accepted_from b (evaluated_timestamps evs)"
      using conjunct1[OF conjunct2[OF L]] by (simp add: ev evaluated_timestamps_def)
    from L
    obtain j where j: "int j < ?n" "evaluated evs1 = map (article_info tbl) [0..<Suc j]"
      by blast
    have "evaluated_timestamps evs = map ((!) (article_ages tbl)) [0..<Suc j]"
      by (simp only: evaluated_timestamps_def ev j(2) map_timestamp_info)
    with na have "\<not> accepted_from b (map ((!) (article_ages tbl)) [0..<Suc j])"
      by simp
    then obtain i where "i < Suc j" "date_gt (article_ages tbl ! i) (bound_before tbl b i)"
      unfolding accepted_upto by blast
    with j(1) have ?rej
      by (intro exI[of _ i]) simp
    with Inl out show ?thesis by simp
  next
    case (Inr c)
    obtain idx' b' where c: "c = (idx', b')" by (cases c) auto
    note R = validate_returns[OF v[unfolded Inr c]]
    have ts: "evaluated_timestamps evs = map ((!) (article_ages tbl)) [0..<nat ?n]"
      by (simp only: evaluated_timestamps_def R(1) map_timestamp_info)
    from R(3) have "accepted_from b (map ((!) (article_ages tbl)) [0..<nat ?n])"
      by (simp add: ts)
    then have "\<forall>i<nat ?n. \<not> date_gt (article_ages tbl ! i) (bound_before tbl b i)"
      unfolding accepted_upto .
    then have "\<not> ?rej" by auto
    moreover have "idx' = idx + max 0 ?n"
      using R(2) by (simp add: R(1))
    moreover have "b' = bound_before tbl b (nat ?n)"
      using R(4) unfolding ts last_bound .
    ultimately show ?thesis using Inr c by simp
  qed
  with v show ?thesis
    by (simp add: date_gt_irrefl)
qed

theorem order_check_decides_witness:
  "snd (validateArticlesOnPage scenario_B 1 100 (Some noon)) = Inl (Exited (- 1))
   \<and> snd (validateArticlesOnPage scenario_A 1 100 (Some noon)) = Inr (4, Some 35880000)
   \<and> snd (validateArticlesOnPage (rows [Some 5, Some 5]) 1 100 (Some 5)) = Inr (3, Some 5)"
proof -
  have b1: "length (article_ages scenario_B) = length (article_athings scenario_B)"
    and b2: "length (article_ages scenario_B) = length (article_scores scenario_B)"
    by (simp_all add: scenario_B_def rows_def)
  have "int 1 < min (int (length (article_athings scenario_B))) (100 - 1 + 1)
        \<and> date_gt (article_ages scenario_B ! 1) (bound_before scenario_B (Some noon) 1)"
    by (simp add: scenario_B_def rows_def bound_before_def date_gt_def)
  then have ex: "\<exists>i. int i < min (int (length (article_athings scenario_B))) (100 - 1 + 1)
        \<and> date_gt (article_ages scenario_B ! i) (bound_before scenario_B (Some noon) i)"
    by (rule exI)
  have B: "snd (validateArticlesOnPage scenario_B 1 100 (Some noon)) = Inl (Exited (- 1))"
    using conjunct1[OF order_check_decides[OF b1 b2, where idx = 1 and T = 100 and b = "Some noon"]] ex
    by (simp only: if_True)
  have a1: "length (article_ages scenario_A) = length (article_athings scenario_A)"
    and a2: "length (article_ages scenario_A) = length (article_scores scenario_A)"
    by (simp_all add: scenario_A_def rows_def)
  have na: "\<not> (\<exists>i. int i < min (int (length (article_athings scenario_A))) (100 - 1 + 1)
        \<and> date_gt (article_ages scenario_A ! i) (bound_before scenario_A (Some noon) i))"
    by (auto simp: scenario_A_def rows_def bound_before_def date_gt_def noon_def
        less_Suc_eq numeral_3_eq_3)
  have A: "snd (validateArticlesOnPage scenario_A 1 100 (Some noon)) = Inr (4, Some 35880000)"
    using conjunct1[OF order_check_decides[OF a1 a2, where idx = 1 and T = 100 and b = "Some noon"]] na
    by (simp add: scenario_A_def rows_def bound_before_def)
  have e1: "length (article_ages (rows [Some 5, Some 5])) = length (article_athings (rows [Some 5, Some 5]))"
    and e2: "length (article_ages (rows [Some 5, Some 5])) = length (article_scores (rows [Some 5, Some 5]))"
    by (simp_all add: rows_def)
  have ne: "\<not> (\<exists>i. int i < min (int (length (article_athings (rows [Some 5, Some 5])))) (100 - 1 + 1)
        \<and> date_gt (article_ages (rows [Some 5, Some 5]) ! i) (bound_before (rows [Some 5, Some 5]) (Some 5) i))"
    by (auto simp: rows_def bound_before_def date_gt_def less_Suc_eq numeral_2_eq_2)
  have E: "snd (validateArticlesOnPage (rows [Some 5, Some 5]) 1 100 (Some 5)) = Inr (3, Some 5)"
    using conjunct1[OF order_check_decides[OF e1 e2, where idx = 1 and T = 100 and b = "Some 5"]] ne
    by (simp add: rows_def bound_before_def)
  from B A E show ?thesis by blast
qed

subsection \<open>The cursor\<close>

lemma date_ge_trans: "date_ge a b \<Longrightarrow> date_ge b c \<Longrightarrow> date_ge a c"
  by (auto simp: date_ge_def split: option.splits)

lemma accepted_valid_newest_first:
  "accepted_from b ts \<Longrightarrow> None \<notin> set (b # ts) \<Longrightarrow>
     newest_first (b # ts) \<and> date_ge b (last (b # ts))"
proof (induction ts arbitrary: b)
  case Nil
  then show ?case by (cases b) (auto simp: date_ge_def)
next
  case (Cons t ts)
  from Cons.prems have acc: "accepted_from t ts" and v: "None \<notin> set (t # ts)"
    and bt: "date_ge b t"
    by (auto simp: date_gt_def date_ge_def split: option.splits)
  from Cons.IH[OF acc v] have IH1: "newest_first (t # ts)" and IH2: "date_ge t (last (t # ts))"
    by blast+
  from bt IH1 have "newest_first (b # t # ts)" by simp
  moreover from date_ge_trans[OF bt IH2] have "date_ge b (last (b # t # ts))" by simp
  ultimately show ?case by blast
qed

lemma newest_first_accepted: "newest_first (b # ts) \<Longrightarrow> accepted_from b ts"
proof (induction ts arbitrary: b)
  case Nil
  show ?case by simp
next
  case (Cons t ts)
  from Cons.prems have "date_ge b t" and "newest_first (t # ts)" by simp_all
  with Cons.IH[of t] show ?case
    by (auto simp: date_gt_def date_ge_def split: option.splits)
qed

lemma accepted_iff_newest_first:
  "None \<notin> set (b # ts) \<Longrightarrow> accepted_from b ts = newest_first (b # ts)"
  using accepted_valid_newest_first[of b ts] newest_first_accepted[of b ts] by blast

text \<open>
  C2, as amended. A page that the first script accepts never lowers the index, and when
  the bound and every evaluated timestamp are valid dates the bound only moves back in
  time or stays, and the bound followed by the evaluated timestamps is newest first. A
  run that exits with status 0 and evaluated valid dates only has evaluated \<open>T\<close> entries
  (none for a negative \<open>T\<close>) that are newest first, starting from the start of the run.
  The counterexample below shows why the dates must be valid: an age that does not
  parse is accepted, and so is the entry after it, whatever its timestamp.
\<close>

theorem cursor_monotone_for_valid_dates:
  "(validateArticlesOnPage tbl idx T b = (evs, Inr (idx', b')) \<longrightarrow>
      idx \<le> idx'
      \<and> (None \<notin> set (b # evaluated_timestamps evs) \<longrightarrow>
           date_ge b b' \<and> newest_first (b # evaluated_timestamps evs)))
   \<and> (sortHackerNewsArticles fuel T now site rnd = Some (tr, Exited 0)
        \<and> None \<notin> set (evaluated_timestamps tr) \<longrightarrow>
          newest_first (Some now # evaluated_timestamps tr)
          \<and> int (length (evaluated tr)) = max 0 T)"
proof (intro conjI impI)
  assume v: "validateArticlesOnPage tbl idx T b = (evs, Inr (idx', b'))"
  note V = validate_returns[OF v]
  show "idx \<le> idx'" using V(2) by simp
  assume valid: "None \<notin> set (b # evaluated_timestamps evs)"
  from accepted_valid_newest_first[OF V(3) valid] V(4)
  show "date_ge b b'" and "newest_first (b # evaluated_timestamps evs)" by simp_all
next
  assume a: "sortHackerNewsArticles fuel T now site rnd = Some (tr, Exited 0)
        \<and> None \<notin> set (evaluated_timestamps tr)"
  then have run: "sortHackerNewsArticles fuel T now site rnd = Some (tr, Exited 0)"
    and valid: "None \<notin> set (evaluated_timestamps tr)" by blast+
  from run have m: "morelink_count (site 0) = 1"
    by (auto simp: sortHackerNewsArticles_def split: if_splits)
  from run m obtain evs r where
    L: "sortHackerNewsArticles_loop fuel site rnd T 0 1 (Some now) = Some (evs, r)"
    by (auto simp: sortHackerNewsArticles_def split: option.splits)
  have both: "newest_first (Some now # evaluated_timestamps tr)
          \<and> int (length (evaluated tr)) = max 0 T"
  proof (cases "0 \<le> T")
    case False
    then have "\<not> (1::int) \<le> T" by simp
    from loop_done[OF this, of fuel site rnd 0 "Some now"] L run m
    have "tr = [Launch, Goto, ClosePage, Banner (Successful T)]"
      by (auto simp: sortHackerNewsArticles_def)
    with False show ?thesis by (simp add: evaluated_timestamps_def)
  next
    case True
    then have le: "(1::int) \<le> T + 1" by simp
    show ?thesis
    proof (cases r)
      case (Inl out')
      from loop_fails[OF L[unfolded Inl] le] have "out' \<noteq> Exited 0" by auto
      moreover from run m L Inl have "out' = Exited 0"
        by (auto simp: sortHackerNewsArticles_def)
      ultimately show ?thesis by simp
    next
      case (Inr c)
      obtain i1 b1 where c: "c = (i1, b1)" by (cases c) auto
      from run m L Inr have tr: "tr = [Launch, Goto] @ evs @ [ClosePage, Banner (Successful T)]"
        by (auto simp: sortHackerNewsArticles_def)
      note R = loop_returns[OF L[unfolded Inr c] le]
      have e: "evaluated tr = evaluated evs" by (simp add: tr evaluated_append)
      from R have acc: "accepted_from (Some now) (evaluated_timestamps tr)"
        by (simp add: e evaluated_timestamps_def)
      from valid have v2: "None \<notin> set (Some now # evaluated_timestamps tr)" by simp
      from accepted_valid_newest_first[OF acc v2] R True show ?thesis
        by (simp add: e)
    qed
  qed
  then show "newest_first (Some now # evaluated_timestamps tr)"
    and "int (length (evaluated tr)) = max 0 T" by blast+
qed

theorem cursor_monotone_for_valid_dates_witness:
  "newest_first (Some noon # evaluated_timestamps (fst (the run_A)))
   \<and> int (length (evaluated (fst (the run_A)))) = 3"
proof -
  have a: "sortHackerNewsArticles 1 3 noon (site_of scenario_A) rnd_zero
             = Some (fst (the run_A), Exited 0)"
    unfolding run_A_def by code_simp
  have v: "None \<notin> set (evaluated_timestamps (fst (the run_A)))"
    unfolding run_A_def by code_simp
  from conjunct2[OF cursor_monotone_for_valid_dates[where fuel = 1 and T = 3 and now = noon
        and site = "site_of scenario_A" and rnd = rnd_zero and tr = "fst (the run_A)"]] a v
  show ?thesis by simp
qed

theorem cursor_monotone_counterexample:
  "snd (the run_invalid) = Exited 0
   \<and> evaluated_timestamps (fst (the run_invalid)) = [Some 36000000, None, Some 36060000]
   \<and> \<not> newest_first (Some noon # evaluated_timestamps (fst (the run_invalid)))
   \<and> snd (validateArticlesOnPage scenario_invalid 1 3 (Some 36000000)) = Inr (4, Some 36060000)
   \<and> \<not> date_ge (Some 36000000) (Some 36060000)"
  unfolding run_invalid_def by code_simp

subsection \<open>Entries evaluated on a page\<close>

lemma validate3_returns:
  assumes "validateArticlesOnPage3 p idx T b = (evs, Inr c)"
  shows "evaluated evs = map (article_info (page_table p))
            [0..<nat (min (int (length (article_athings (page_table p)))) (T - idx))]"
proof -
  let ?tbl = "page_table p"
  let ?n = "min (int (length (article_athings ?tbl))) (T - idx)"
  obtain evs1 r where cf: "check_from ?tbl ?n 0 idx b = (evs1, r)"
    by (cases "check_from ?tbl ?n 0 idx b") auto
  from assms cf have r: "r = Inr c"
    and evs: "evs = Progress b idx (length (article_athings ?tbl)) (length (article_ages ?tbl))
        (length (article_scores ?tbl)) # evs1 @ [Banner PageChecked]"
    by (auto simp: validateArticlesOnPage3_def Let_def split: if_splits sum.splits)
  obtain i1 b1 where c: "c = (i1, b1)" by (cases c) auto
  from check_from_returns[OF cf[unfolded r c]]
  have "evaluated evs1 = map (article_info ?tbl) [0..<nat ?n]" by blast
  then show ?thesis by (simp add: evs evaluated_append)
qed

text \<open>
  C3. With \<open>article_index - 1\<close> entries verified so far and \<open>n\<close> rows on the page,
  the page-level function of the first script evaluates at most
  \<open>min n (T - (article_index - 1))\<close> entries, and exactly that many on a page it
  accepts. The page-level function of the third script evaluates one entry fewer when
  the target binds: \<open>min n (T - (article_index - 1) - 1)\<close> on a page it accepts.
  On the fourth page of Scenario D (90 entries verified, 30 rows) the first script
  evaluates 10 entries and the third script 9, and a whole run of the third script
  exits with status 0 after 99 entries.
\<close>

theorem entries_evaluated_on_a_page:
  "(validateArticlesOnPage tbl idx T b = (evs, r) \<and> counts tbl n \<longrightarrow>
      int (length (evaluated evs)) \<le> max 0 (min (int n) (T - (idx - 1)))
      \<and> ((\<exists>c. r = Inr c) \<longrightarrow>
           int (length (evaluated evs)) = max 0 (min (int n) (T - (idx - 1)))))
   \<and> (validateArticlesOnPage3 p idx T b = (evs', Inr c') \<and> counts (page_table p) n \<longrightarrow>
      int (length (evaluated evs')) = max 0 (min (int n) (T - (idx - 1) - 1)))"
proof (intro conjI impI)
  assume a: "validateArticlesOnPage tbl idx T b = (evs, r) \<and> counts tbl n"
  then have v: "validateArticlesOnPage tbl idx T b = (evs, r)"
    and n: "length (article_athings tbl) = n" by (simp_all add: counts_def)
  have eq: "(\<exists>c. r = Inr c) \<Longrightarrow> int (length (evaluated evs)) = max 0 (min (int n) (T - (idx - 1)))"
  proof -
    assume "\<exists>c. r = Inr c"
    then obtain i1 b1 where r: "r = Inr (i1, b1)" by auto
    from validate_returns(1)[OF v[unfolded r]] n show ?thesis
      by (simp add: algebra_simps)
  qed
  show "int (length (evaluated evs)) \<le> max 0 (min (int n) (T - (idx - 1)))"
  proof (cases r)
    case (Inl out)
    from validate_exits(3)[OF v[unfolded Inl]] n show ?thesis
      by (simp add: algebra_simps)
  next
    case (Inr c)
    with eq show ?thesis by simp
  qed
  assume "\<exists>c. r = Inr c"
  then show "int (length (evaluated evs)) = max 0 (min (int n) (T - (idx - 1)))" by (rule eq)
next
  assume a: "validateArticlesOnPage3 p idx T b = (evs', Inr c') \<and> counts (page_table p) n"
  then have v: "validateArticlesOnPage3 p idx T b = (evs', Inr c')"
    and n: "length (article_athings (page_table p)) = n" by (simp_all add: counts_def)
  from validate3_returns[OF v] n
  show "int (length (evaluated evs')) = max 0 (min (int n) (T - (idx - 1) - 1))"
    by (simp add: algebra_simps)
qed

theorem entries_evaluated_on_a_page_witness:
  "length (evaluated (fst (validateArticlesOnPage (page_table (offset30 91)) 91 100
              (Some (noon - 91000))))) = 10
   \<and> length (evaluated (fst (validateArticlesOnPage3 (offset30 91) 91 100
              (Some (noon - 91000))))) = 9
   \<and> snd (validateArticlesOnPage3 (offset30 91) 91 100 (Some (noon - 91000)))
       = Inr (100, Some (noon - 99000))
   \<and> length (evaluated (fst (the run3_D))) = 99
   \<and> entries_per_page (fst (the run3_D)) = [30, 30, 30, 9]
   \<and> snd (the run3_D) = Exited 0"
proof -
  let ?b = "Some (noon - 91000)"
  have c: "counts (page_table (offset30 91)) 30"
    by (simp add: counts_def offset30_def page_of_def rows_def)
  have v1: "validateArticlesOnPage (page_table (offset30 91)) 91 100 ?b
     = (fst (validateArticlesOnPage (page_table (offset30 91)) 91 100 ?b),
        Inr (101, Some (noon - 100000)))"
    by code_simp
  have v3: "validateArticlesOnPage3 (offset30 91) 91 100 ?b
     = (fst (validateArticlesOnPage3 (offset30 91) 91 100 ?b), Inr (100, Some (noon - 99000)))"
    by code_simp
  have r3: "length (evaluated (fst (the run3_D))) = 99
       \<and> entries_per_page (fst (the run3_D)) = [30, 30, 30, 9]
       \<and> snd (the run3_D) = Exited 0"
    unfolding run3_D_def by code_simp
  note t = entries_evaluated_on_a_page[where tbl = "page_table (offset30 91)" and idx = 91
      and T = 100 and b = "?b" and n = 30 and p = "offset30 91"
      and evs = "fst (validateArticlesOnPage (page_table (offset30 91)) 91 100 ?b)"
      and r = "Inr (101, Some (noon - 100000))"
      and evs' = "fst (validateArticlesOnPage3 (offset30 91) 91 100 ?b)"
      and c' = "(100, Some (noon - 99000))"]
  have s3: "snd (validateArticlesOnPage3 (offset30 91) 91 100 ?b) = Inr (100, Some (noon - 99000))"
    by (subst v3) simp
  from mp[OF conjunct1[OF t] conjI[OF v1 c]] mp[OF conjunct2[OF t] conjI[OF v3 c]]
  have "length (evaluated (fst (validateArticlesOnPage (page_table (offset30 91)) 91 100 ?b))) = 10"
    and "length (evaluated (fst (validateArticlesOnPage3 (offset30 91) 91 100 ?b))) = 9"
    by simp_all
  with s3 r3 show ?thesis by blast
qed

subsection \<open>The count check\<close>

text \<open>
  C4. When the numbers of timestamps, of titles and of ids on a page are not all equal,
  the page-level function prints the mismatch banner and ends the run with a non-zero
  exit status, and it has evaluated no entry of the page: no timestamp was compared.
  (The call that ends the run is \<^verbatim>\<open>exit(-1)\<close>, which throws a
  \<^verbatim>\<open>ReferenceError\<close> that nothing catches.)
\<close>

theorem count_mismatch_is_fatal:
  assumes "length (article_ages tbl) \<noteq> length (article_athings tbl)
           \<or> length (article_ages tbl) \<noteq> length (article_scores tbl)"
  shows "\<exists>out. snd (validateArticlesOnPage tbl idx T b) = Inl out
           \<and> exit_status out \<noteq> 0
           \<and> evaluated (fst (validateArticlesOnPage tbl idx T b)) = []
           \<and> fst (validateArticlesOnPage tbl idx T b) = [Banner CountMismatch]"
  using validate_mismatch[OF assms, of idx T b] by simp

theorem count_mismatch_is_fatal_witness:
  "(\<exists>out. snd (validateArticlesOnPage scenario_C 1 100 (Some noon)) = Inl out
           \<and> exit_status out \<noteq> 0
           \<and> evaluated (fst (validateArticlesOnPage scenario_C 1 100 (Some noon))) = []
           \<and> fst (validateArticlesOnPage scenario_C 1 100 (Some noon)) = [Banner CountMismatch])
   \<and> length (article_ages scenario_C) = 5 \<and> length (article_athings scenario_C) = 4"
proof -
  have h: "length (article_ages scenario_C) \<noteq> length (article_athings scenario_C)
           \<or> length (article_ages scenario_C) \<noteq> length (article_scores scenario_C)"
    by (simp add: scenario_C_def)
  from count_mismatch_is_fatal[OF h, of 1 100 "Some noon"] show ?thesis
    by (simp add: scenario_C_def)
qed

subsection \<open>The exit status\<close>

text \<open>
  In a loop that returns, every click was made on a page with one "More" link and led to
  a page with one "More" link whose table passes the count check.
\<close>

lemma loop_success_pages:
  "sortHackerNewsArticles_loop fuel site rnd T k idx b = Some (tr, Inr c) \<Longrightarrow>
   j < more_clicks tr \<Longrightarrow>
     morelink_count (site (k + j)) = 1 \<and> morelink_count (site (k + Suc j)) = 1
     \<and> same_counts (page_table (site (k + Suc j)))"
proof (induction fuel arbitrary: k idx b tr j)
  case 0
  then show ?case by (auto simp: more_clicks_def split: if_splits)
next
  case (Suc fuel)
  show ?case
  proof (cases "idx \<le> T")
    case False
    with Suc.prems loop_done[OF False, of "Suc fuel" site rnd k b] show ?thesis
      by (auto simp: more_clicks_def)
  next
    case True
    from Suc.prems(1) True show ?thesis
    proof (cases rule: loop_Suc_cases)
      case (page_ok evs i1 b1 rest)
      note V = validate_returns[OF page_ok(3)]
      from validate_loads[of "page_table (site (Suc k))" idx T b] page_ok(3)
      have z: "more_clicks evs = 0" by simp
      have "more_clicks [WaitTimeout (random_delay 200 800 (rnd (2 * k))), ClickMore,
             WaitTimeout (random_delay 200 800 (rnd (2 * k + 1)))] = 1"
        by (simp add: more_clicks_def)
      then have m: "more_clicks tr = Suc (more_clicks rest)"
        unfolding page_ok(5) more_clicks_append z by simp
      show ?thesis
      proof (cases j)
        case 0
        with page_ok(1,2) V(6,7) show ?thesis by (simp add: same_counts_def)
      next
        case (Suc j')
        with Suc.prems(2) m have "j' < more_clicks rest" by simp
        from Suc.IH[OF page_ok(4) this] Suc show ?thesis by simp
      qed
    qed simp_all
  qed
qed

text \<open>
  C5, as amended. For a run of the first script that ends, with a positive target \<open>T\<close>:
  when every evaluated timestamp is a valid date, the exit status is 0 exactly when
  \<open>T\<close> entries were evaluated and they are newest first, starting from the start of
  the run. Without that proviso the exit status is 0 exactly when \<open>T\<close> entries were
  evaluated and each passed the comparison of line 160, which an invalid date always
  passes. Every failure gives a non-zero exit status: an entry that fails the
  comparison, a loaded page (the first one or the one after a click) without exactly
  one "More" link, a page after a click whose counts differ, and any printed failure
  banner. A run ends in \<^verbatim>\<open>process.exit(0)\<close>, in \<^verbatim>\<open>process.exit(-1)\<close> or in an
  uncaught error. The counterexample below is the run on 10:00, an unparsable age and
  10:01: three of three entries evaluated, exit status 0, and 10:01 after 10:00.
\<close>

theorem exit_status_zero_iff_verified:
  assumes "sortHackerNewsArticles fuel T now site rnd = Some (tr, out)"
      and "0 < T"
  shows "(None \<notin> set (evaluated_timestamps tr) \<longrightarrow>
            (exit_status out = 0)
              = (int (length (evaluated tr)) = T
                 \<and> newest_first (Some now # evaluated_timestamps tr)))
       \<and> (exit_status out = 0)
           = (int (length (evaluated tr)) = T
              \<and> accepted_from (Some now) (evaluated_timestamps tr))
       \<and> ((\<exists>k. k \<le> more_clicks tr \<and> morelink_count (site k) \<noteq> 1) \<longrightarrow>
            exit_status out \<noteq> 0)
       \<and> ((\<exists>k. 0 < k \<and> k \<le> more_clicks tr \<and> \<not> same_counts (page_table (site k))) \<longrightarrow>
            exit_status out \<noteq> 0)
       \<and> (out = Exited 0 \<or> out = Exited (- 1) \<or> (\<exists>err. out = Uncaught err))
       \<and> ((\<exists>e\<in>set tr. failure_banner e) \<longrightarrow> exit_status out \<noteq> 0)"
proof -
  have main: "(exit_status out = 0)
           = (int (length (evaluated tr)) = T
              \<and> accepted_from (Some now) (evaluated_timestamps tr))
       \<and> (out = Exited 0 \<or> out = Exited (- 1) \<or> (\<exists>err. out = Uncaught err))
       \<and> ((\<exists>e\<in>set tr. failure_banner e) \<longrightarrow> exit_status out \<noteq> 0)"
  proof (cases "morelink_count (site 0) \<noteq> 1")
    case True
    with assms show ?thesis
      by (auto simp: sortHackerNewsArticles_def failure_banner_def)
  next
    case False
    then have m: "morelink_count (site 0) = 1" by simp
    from assms(1) m obtain evs r where
      L: "sortHackerNewsArticles_loop fuel site rnd T 0 1 (Some now) = Some (evs, r)"
      by (auto simp: sortHackerNewsArticles_def split: option.splits)
    have le: "(1::int) \<le> T + 1" using assms(2) by simp
    show ?thesis
    proof (cases r)
      case (Inl out')
      from assms(1) m L Inl have tr: "tr = [Launch, Goto] @ evs" and out: "out = out'"
        by (auto simp: sortHackerNewsArticles_def)
      note F = loop_fails[OF L[unfolded Inl] le]
      have e: "evaluated tr = evaluated evs" by (simp add: tr)
      from F have nz: "exit_status out \<noteq> 0" by (auto simp: out)
      from F have "int (length (evaluated tr)) < T \<or> \<not> accepted_from (Some now) (evaluated_timestamps tr)"
        by (auto simp: e evaluated_timestamps_def)
      with nz F show ?thesis by (auto simp: out)
    next
      case (Inr c)
      obtain idx' b' where c: "c = (idx', b')" by (cases c) auto
      from assms(1) m L Inr have tr: "tr = [Launch, Goto] @ evs @ [ClosePage, Banner (Successful T)]"
        and out: "out = Exited 0"
        by (auto simp: sortHackerNewsArticles_def)
      note R = loop_returns[OF L[unfolded Inr c] le]
      have e: "evaluated tr = evaluated evs" by (simp add: tr evaluated_append)
      have q: "\<not> (\<exists>e\<in>set tr. failure_banner e)"
        using loop_quiet[OF L[unfolded Inr]] by (auto simp: tr failure_banner_def)
      from R have "int (length (evaluated tr)) = T" by (simp add: e)
      moreover from R have "accepted_from (Some now) (evaluated_timestamps tr)"
        by (simp add: e evaluated_timestamps_def)
      ultimately show ?thesis using q by (simp add: out)
    qed
  qed
  have valid: "None \<notin> set (evaluated_timestamps tr) \<longrightarrow>
            (exit_status out = 0)
              = (int (length (evaluated tr)) = T
                 \<and> newest_first (Some now # evaluated_timestamps tr))"
  proof
    assume "None \<notin> set (evaluated_timestamps tr)"
    then have "None \<notin> set (Some now # evaluated_timestamps tr)" by simp
    from accepted_iff_newest_first[OF this] conjunct1[OF main]
    show "(exit_status out = 0)
              = (int (length (evaluated tr)) = T
                 \<and> newest_first (Some now # evaluated_timestamps tr))"
      by simp
  qed
  have pages: "exit_status out = 0 \<Longrightarrow> k \<le> more_clicks tr \<Longrightarrow>
      morelink_count (site k) = 1 \<and> (0 < k \<longrightarrow> same_counts (page_table (site k)))" for k
  proof -
    assume zero: "exit_status out = 0" and k: "k \<le> more_clicks tr"
    from zero main have out: "out = Exited 0" by auto
    from assms(1) out have m: "morelink_count (site 0) = 1"
      by (auto simp: sortHackerNewsArticles_def split: if_splits)
    from assms(1) m obtain evs r where
      L: "sortHackerNewsArticles_loop fuel site rnd T 0 1 (Some now) = Some (evs, r)"
      by (auto simp: sortHackerNewsArticles_def split: option.splits)
    have le: "(1::int) \<le> T + 1" using assms(2) by simp
    show ?thesis
    proof (cases r)
      case (Inl out')
      from loop_fails[OF L[unfolded Inl] le] have "out' \<noteq> Exited 0" by auto
      moreover from assms(1) m L Inl out have "out' = Exited 0"
        by (auto simp: sortHackerNewsArticles_def)
      ultimately show ?thesis by simp
    next
      case (Inr c)
      from assms(1) m L Inr have tr: "tr = [Launch, Goto] @ evs @ [ClosePage, Banner (Successful T)]"
        by (auto simp: sortHackerNewsArticles_def)
      have mc: "more_clicks tr = more_clicks evs"
        by (simp add: tr more_clicks_def)
      show ?thesis
      proof (cases k)
        case 0
        with m show ?thesis by simp
      next
        case (Suc j)
        with k mc have "j < more_clicks evs" by simp
        from loop_success_pages[OF L[unfolded Inr] this] Suc show ?thesis by simp
      qed
    qed
  qed
  have more: "(\<exists>k. k \<le> more_clicks tr \<and> morelink_count (site k) \<noteq> 1) \<longrightarrow>
            exit_status out \<noteq> 0"
    using pages by blast
  have cnt: "(\<exists>k. 0 < k \<and> k \<le> more_clicks tr \<and> \<not> same_counts (page_table (site k))) \<longrightarrow>
            exit_status out \<noteq> 0"
    using pages by blast
  from valid main more cnt show ?thesis by blast
qed

theorem exit_status_zero_iff_verified_witness:
  "exit_status (snd (the run_A)) = 0
   \<and> int (length (evaluated (fst (the run_A)))) = 3
   \<and> newest_first (Some noon # evaluated_timestamps (fst (the run_A)))
   \<and> exit_status (snd (the run_B)) = 255
   \<and> \<not> accepted_from (Some noon) (evaluated_timestamps (fst (the run_B)))
   \<and> morelink_count (site30_two_more 1) = 2
   \<and> exit_status (snd (the run_two_more)) \<noteq> 0
   \<and> \<not> same_counts (page_table (site_of scenario_C 1))
   \<and> exit_status (snd (the run_C)) \<noteq> 0"
proof -
  have a: "sortHackerNewsArticles 1 3 noon (site_of scenario_A) rnd_zero
             = Some (fst (the run_A), snd (the run_A))"
    unfolding run_A_def by code_simp
  have oa: "snd (the run_A) = Exited 0"
    unfolding run_A_def by code_simp
  have va: "None \<notin> set (evaluated_timestamps (fst (the run_A)))"
    unfolding run_A_def by code_simp
  have b: "sortHackerNewsArticles 1 2 noon (site_of scenario_B) rnd_zero
             = Some (fst (the run_B), snd (the run_B))"
    unfolding run_B_def by code_simp
  have ob: "snd (the run_B) = Exited (- 1)"
    unfolding run_B_def by code_simp
  have lb: "int (length (evaluated (fst (the run_B)))) = 2"
    unfolding run_B_def by code_simp
  have t: "sortHackerNewsArticles 4 100 noon site30_two_more rnd_zero
             = Some (fst (the run_two_more), snd (the run_two_more))"
    unfolding run_two_more_def by code_simp
  have kt: "1 \<le> more_clicks (fst (the run_two_more))"
    unfolding run_two_more_def by code_simp
  have mt: "morelink_count (site30_two_more 1) = 2"
    by (simp add: site30_two_more_def)
  have c: "sortHackerNewsArticles 1 2 noon (site_of scenario_C) rnd_zero
             = Some (fst (the run_C), snd (the run_C))"
    unfolding run_C_def by code_simp
  have kc: "1 \<le> more_clicks (fst (the run_C))"
    unfolding run_C_def by code_simp
  have sc: "\<not> same_counts (page_table (site_of scenario_C 1))"
    by (simp add: same_counts_def site_of_def page_of_def scenario_C_def)
  have p3: "(0::int) < 3" and p2: "(0::int) < 2" and p100: "(0::int) < 100" by simp_all
  note A = exit_status_zero_iff_verified[OF a p3]
  note B = exit_status_zero_iff_verified[OF b p2]
  note D = exit_status_zero_iff_verified[OF t p100]
  note C = exit_status_zero_iff_verified[OF c p2]
  from mp[OF conjunct1[OF A] va] oa
  have A': "int (length (evaluated (fst (the run_A)))) = 3
           \<and> newest_first (Some noon # evaluated_timestamps (fst (the run_A)))"
    by simp
  from conjunct1[OF conjunct2[OF B]] ob lb
  have B': "\<not> accepted_from (Some noon) (evaluated_timestamps (fst (the run_B)))"
    by simp
  have "\<exists>k. k \<le> more_clicks (fst (the run_two_more)) \<and> morelink_count (site30_two_more k) \<noteq> 1"
    using kt mt by (intro exI[of _ 1]) simp
  from mp[OF conjunct1[OF conjunct2[OF conjunct2[OF D]]] this]
  have D': "exit_status (snd (the run_two_more)) \<noteq> 0" .
  have "\<exists>k. 0 < k \<and> k \<le> more_clicks (fst (the run_C))
            \<and> \<not> same_counts (page_table (site_of scenario_C k))"
    using kc sc by (intro exI[of _ 1]) simp
  from mp[OF conjunct1[OF conjunct2[OF conjunct2[OF conjunct2[OF C]]]] this]
  have C': "exit_status (snd (the run_C)) \<noteq> 0" .
  from A' B' D' C' oa ob mt sc show ?thesis by simp
qed

theorem exit_status_counterexample:
  "exit_status (snd (the run_invalid)) = 0
   \<and> length (evaluated (fst (the run_invalid))) = 3
   \<and> evaluated_timestamps (fst (the run_invalid)) = [Some 36000000, None, Some 36060000]
   \<and> \<not> newest_first (evaluated_timestamps (fst (the run_invalid)))
   \<and> date_gt (Some 36060000) (Some 36000000)"
  unfolding run_invalid_def by code_simp

subsection \<open>Page loads\<close>

lemma ceil_step:
  fixes c P :: int
  assumes "0 < P" "0 < c"
  shows "1 + (c - min P c + P - 1) div P = (c + P - 1) div P"
proof (cases "c \<le> P")
  case True
  with assms have "(c + P - 1) div P = 1"
    by (intro int_div_pos_eq[where r = "c - 1"]) auto
  moreover from assms have "(P - 1) div P = 0" by simp
  moreover from True have "c - min P c + P - 1 = P - 1" by simp
  ultimately show ?thesis by simp
next
  case False
  have "(c - 1 + P) div P = (c - 1) div P + 1"
    using assms by simp
  with False show ?thesis by (simp add: min_def algebra_simps)
qed

lemma loop_clicks:
  assumes P: "0 < P" and pages: "\<forall>j. counts (page_table (site (Suc j))) P"
  shows "sortHackerNewsArticles_loop fuel site rnd T k idx b = Some (tr, Inr c) \<Longrightarrow>
         idx \<le> T + 1 \<Longrightarrow>
           int (more_clicks tr) = (T + 1 - idx + int P - 1) div int P
           \<and> page_loads tr = more_clicks tr"
proof (induction fuel arbitrary: k idx b tr)
  case 0
  then have "tr = []" and "idx = T + 1" by (auto split: if_splits)
  with P show ?case by (simp add: more_clicks_def page_loads_def)
next
  case (Suc fuel)
  show ?case
  proof (cases "idx \<le> T")
    case False
    with Suc.prems loop_done[OF False, of "Suc fuel" site rnd k b]
    have "tr = []" and "idx = T + 1" by auto
    with P show ?thesis by (simp add: more_clicks_def page_loads_def)
  next
    case True
    from Suc.prems(1) True show ?thesis
    proof (cases rule: loop_Suc_cases)
      case (page_ok evs i1 b1 rest)
      note V = validate_returns[OF page_ok(3)]
      from pages have len: "length (article_athings (page_table (site (Suc k)))) = P"
        by (simp add: counts_def)
      have n: "int (length (evaluated evs)) = min (int P) (T + 1 - idx)"
        using True P by (simp add: V(1) len min_def)
      with V(2) have i1: "i1 = idx + min (int P) (T + 1 - idx)" by simp
      with True have le: "i1 \<le> T + 1" by simp
      note IH = Suc.IH[OF page_ok(4) le]
      from validate_loads[of "page_table (site (Suc k))" idx T b] page_ok(3)
      have z: "more_clicks evs = 0" "page_loads evs = 0" by simp_all
      have "more_clicks [WaitTimeout (random_delay 200 800 (rnd (2 * k))), ClickMore,
             WaitTimeout (random_delay 200 800 (rnd (2 * k + 1)))] = 1"
        by (simp add: more_clicks_def)
      then have m: "more_clicks tr = 1 + more_clicks rest"
        unfolding page_ok(5) more_clicks_append z by simp
      have "page_loads [WaitTimeout (random_delay 200 800 (rnd (2 * k))), ClickMore,
             WaitTimeout (random_delay 200 800 (rnd (2 * k + 1)))] = 1"
        by (simp add: page_loads_def)
      then have p: "page_loads tr = 1 + page_loads rest"
        unfolding page_ok(5) page_loads_append z by simp
      have "0 < int P" "0 < T + 1 - idx" using P True by simp_all
      from ceil_step[OF this]
      have "1 + (T + 1 - i1 + int P - 1) div int P = (T + 1 - idx + int P - 1) div int P"
        by (simp add: i1 algebra_simps)
      with IH m p show ?thesis by simp
    qed simp_all
  qed
qed

text \<open>
  C6. The claim counts the pages that are validated: none for \<open>T = 0\<close>, four for
  \<open>T = 100\<close> with pages of 30 rows. The first script makes one page load more: it
  loads the listing before its loop, whatever the target, and every iteration clicks
  "More" before it validates, so the page loaded first is never validated. With a target
  \<open>T \<le> 0\<close> a run whose first page shows one "More" link exits with status 0 after
  that single load. With pages of \<open>P\<close> rows each, a run with target \<open>T \<ge> 0\<close> that
  exits with status 0 has made \<open>\<lceil>T / P\<rceil>\<close> clicks, one page load more than clicks,
  and evaluated \<open>T\<close> entries: for \<open>T = 100\<close> and \<open>P = 30\<close> four clicks and five page
  loads, the four validated pages evaluating 30, 30, 30 and 10 entries.
\<close>

theorem clicks_by_target_and_page_size:
  "(T \<le> 0 \<and> morelink_count (site 0) = 1 \<longrightarrow>
      sortHackerNewsArticles fuel T now site rnd
        = Some ([Launch, Goto, ClosePage, Banner (Successful T)], Exited 0))
   \<and> (0 \<le> T \<and> 0 < P \<and> (\<forall>j. counts (page_table (site (Suc j))) P)
        \<and> sortHackerNewsArticles fuel T now site rnd = Some (tr, Exited 0) \<longrightarrow>
          int (more_clicks tr) = (T + int P - 1) div int P
          \<and> page_loads tr = 1 + more_clicks tr
          \<and> int (length (evaluated tr)) = T)"
proof (intro conjI impI)
  assume a: "T \<le> 0 \<and> morelink_count (site 0) = 1"
  then have "\<not> (1::int) \<le> T" by simp
  from loop_done[OF this, of fuel site rnd 0 "Some now"] a
  show "sortHackerNewsArticles fuel T now site rnd
        = Some ([Launch, Goto, ClosePage, Banner (Successful T)], Exited 0)"
    by (simp add: sortHackerNewsArticles_def)
next
  assume a: "0 \<le> T \<and> 0 < P \<and> (\<forall>j. counts (page_table (site (Suc j))) P)
        \<and> sortHackerNewsArticles fuel T now site rnd = Some (tr, Exited 0)"
  then have T: "0 \<le> T" and P: "0 < P" and pages: "\<forall>j. counts (page_table (site (Suc j))) P"
    and run: "sortHackerNewsArticles fuel T now site rnd = Some (tr, Exited 0)" by blast+
  from run have m: "morelink_count (site 0) = 1"
    by (auto simp: sortHackerNewsArticles_def split: if_splits)
  from run m obtain evs r where
    L: "sortHackerNewsArticles_loop fuel site rnd T 0 1 (Some now) = Some (evs, r)"
    by (auto simp: sortHackerNewsArticles_def split: option.splits)
  from T have le: "(1::int) \<le> T + 1" by simp
  have all: "int (more_clicks tr) = (T + int P - 1) div int P
          \<and> page_loads tr = 1 + more_clicks tr
          \<and> int (length (evaluated tr)) = T"
  proof (cases r)
    case (Inl out')
    from loop_fails[OF L[unfolded Inl] le] have "out' \<noteq> Exited 0" by auto
    moreover from run m L Inl have "out' = Exited 0"
      by (auto simp: sortHackerNewsArticles_def)
    ultimately show ?thesis by simp
  next
    case (Inr c)
    obtain i1 b1 where c: "c = (i1, b1)" by (cases c) auto
    from run m L Inr have tr: "tr = [Launch, Goto] @ evs @ [ClosePage, Banner (Successful T)]"
      by (auto simp: sortHackerNewsArticles_def)
    note C = loop_clicks[OF P pages L[unfolded Inr] le]
    note R = loop_returns[OF L[unfolded Inr c] le]
    have "more_clicks tr = more_clicks evs"
      by (simp add: tr more_clicks_def)
    moreover have "page_loads tr = 1 + page_loads evs"
      by (simp add: tr page_loads_def)
    moreover have "evaluated tr = evaluated evs"
      by (simp add: tr evaluated_append)
    ultimately show ?thesis using C R by simp
  qed
  then show "int (more_clicks tr) = (T + int P - 1) div int P"
    and "page_loads tr = 1 + more_clicks tr"
    and "int (length (evaluated tr)) = T" by blast+
qed

theorem clicks_by_target_and_page_size_witness:
  "more_clicks (fst (the run_D)) = 4 \<and> page_loads (fst (the run_D)) = 5
   \<and> length (evaluated (fst (the run_D))) = 100
   \<and> entries_per_page (fst (the run_D)) = [30, 30, 30, 10]
   \<and> sortHackerNewsArticles 0 0 noon site30 rnd_zero
       = Some ([Launch, Goto, ClosePage, Banner (Successful 0)], Exited 0)"
proof -
  have d: "sortHackerNewsArticles 4 100 noon site30 rnd_zero = Some (fst (the run_D), Exited 0)"
    unfolding run_D_def by code_simp
  have e: "entries_per_page (fst (the run_D)) = [30, 30, 30, 10]"
    unfolding run_D_def by code_simp
  have h: "(0::int) \<le> 100 \<and> 0 < (30::nat) \<and> (\<forall>j. counts (page_table (site30 (Suc j))) 30)
        \<and> sortHackerNewsArticles 4 100 noon site30 rnd_zero = Some (fst (the run_D), Exited 0)"
    using d by (simp add: counts_def site30_def page_of_def rows_def)
  have z: "(0::int) \<le> 0 \<and> morelink_count (site30 0) = 1"
    by (simp add: site30_def page_of_def)
  note t = clicks_by_target_and_page_size[where T = 100 and P = 30 and site = site30
      and fuel = 4 and now = noon and rnd = rnd_zero and tr = "fst (the run_D)"]
  note u = clicks_by_target_and_page_size[where T = 0 and site = site30
      and fuel = 0 and now = noon and rnd = rnd_zero]
  from mp[OF conjunct2[OF t] h] mp[OF conjunct1[OF u] z] e
  show ?thesis by simp
qed

text \<open>
  The page loads of the two scripts on the listing of 30 rows per page. The first script
  makes one load with no entry wanted (and fails when that page shows no "More" link)
  and five with a hundred wanted, where it evaluates the entries 30 to 129 seconds old:
  the 30 newest are never read. The third script makes no load and four.
\<close>

lemma page_loads_of_both_scripts:
  "page_loads (fst (the run_zero)) = 1 \<and> snd (the run_zero) = Exited 0
   \<and> sortHackerNewsArticles 0 0 noon site30_no_more rnd_zero
       = Some ([Launch, Goto], Uncaught ExpectError)
   \<and> page_loads (fst (the run_D)) = 5 \<and> snd (the run_D) = Exited 0
   \<and> hd (evaluated_timestamps (fst (the run_D))) = Some (noon - 30000)
   \<and> last (evaluated_timestamps (fst (the run_D))) = Some (noon - 129000)
   \<and> run3_zero = Some ([Launch, ClosePage], Exited 0)
   \<and> page_loads (fst (the run3_zero)) = 0
   \<and> page_loads (fst (the run3_D)) = 4"
  unfolding run_zero_def run_D_def run3_zero_def run3_D_def by code_simp

subsection \<open>Pacing delays\<close>

lemma loop_delays_irrelevant:
  "map_option without_waits (sortHackerNewsArticles_loop fuel site rnd1 T k idx b)
     = map_option without_waits (sortHackerNewsArticles_loop fuel site rnd2 T k idx b)"
proof (induction fuel arbitrary: k idx b)
  case 0
  show ?case by (simp add: without_waits_def)
next
  case (Suc fuel)
  show ?case
  proof (cases "validateArticlesOnPage (page_table (site (Suc k))) idx T b")
    case (Pair evs r)
    show ?thesis
    proof (cases r)
      case (Inl out)
      with Pair show ?thesis by (simp add: without_waits_def)
    next
      case (Inr c)
      obtain i1 b1 where c: "c = (i1, b1)" by (cases c) auto
      from Suc.IH[of "Suc k" i1 b1] Pair Inr c show ?thesis
        by (auto simp: without_waits_def split: option.splits)
    qed
  qed
qed

text \<open>
  C7. Two runs of the first script on the same site, with the same target, start time
  and bound on the iterations, that differ only in the values \<^verbatim>\<open>Math.random()\<close>
  returns, end the same way and agree on everything they do but the lengths of the
  waits; in particular they pass or fail together.
\<close>

theorem delays_do_not_change_the_result:
  "map_option without_waits (sortHackerNewsArticles fuel T now site rnd1)
     = map_option without_waits (sortHackerNewsArticles fuel T now site rnd2)"
proof (cases "morelink_count (site 0) \<noteq> 1")
  case True
  then show ?thesis by (simp add: sortHackerNewsArticles_def)
next
  case False
  let ?l1 = "sortHackerNewsArticles_loop fuel site rnd1 T 0 1 (Some now)"
  let ?l2 = "sortHackerNewsArticles_loop fuel site rnd2 T 0 1 (Some now)"
  have eq: "map_option without_waits ?l1 = map_option without_waits ?l2"
    by (rule loop_delays_irrelevant)
  show ?thesis
  proof (cases ?l1)
    case None
    with eq have "?l2 = None" by simp
    with None False show ?thesis by (simp add: sortHackerNewsArticles_def)
  next
    case (Some x1)
    with eq obtain x2 where s2: "?l2 = Some x2" and w: "without_waits x1 = without_waits x2"
      by (cases ?l2) auto
    obtain e1 r1 where x1: "x1 = (e1, r1)" by (cases x1) auto
    obtain e2 r2 where x2: "x2 = (e2, r2)" by (cases x2) auto
    from w x1 x2 have r: "r1 = r2" and f: "filter (\<lambda>e. \<not> is_wait e) e1 = filter (\<lambda>e. \<not> is_wait e) e2"
      by (simp_all add: without_waits_def)
    from Some s2 x1 x2 r f False show ?thesis
      by (cases r2) (simp_all add: sortHackerNewsArticles_def without_waits_def)
  qed
qed

theorem delays_do_not_change_the_result_witness:
  "map_option without_waits (sortHackerNewsArticles 1 2 noon (site_of scenario_B) rnd_zero)
     = map_option without_waits (sortHackerNewsArticles 1 2 noon (site_of scenario_B) rnd_half)
   \<and> sortHackerNewsArticles 1 2 noon (site_of scenario_B) rnd_zero
     \<noteq> sortHackerNewsArticles 1 2 noon (site_of scenario_B) rnd_half
   \<and> random_delay 200 800 (rnd_zero 0) = 200 \<and> random_delay 200 800 (rnd_half 0) = 600"
proof -
  have d: "sortHackerNewsArticles 1 2 noon (site_of scenario_B) rnd_zero
     \<noteq> sortHackerNewsArticles 1 2 noon (site_of scenario_B) rnd_half"
    by code_simp
  have r: "random_delay 200 800 (rnd_zero 0) = 200 \<and> random_delay 200 800 (rnd_half 0) = 600"
    by (simp add: random_delay_def rnd_zero_def rnd_half_def)
  from delays_do_not_change_the_result[of 1 2 noon "site_of scenario_B" rnd_zero rnd_half] d r
  show ?thesis by blast
qed

subsection \<open>Closing the page\<close>

text \<open>
  C8. The claim asks that every exit path closes the page. In the first script
  \<^verbatim>\<open>page.close()\<close> is called on the success path only: a run that ends has closed
  the page exactly when it ends with \<^verbatim>\<open>process.exit(0)\<close>. The runs on scenario B
  (order violation) and scenario C (count mismatch) end without closing it.
\<close>

theorem page_closed_only_on_success:
  assumes "sortHackerNewsArticles fuel T now site rnd = Some (tr, out)"
  shows "(ClosePage \<in> set tr) = (out = Exited 0)"
proof (cases "morelink_count (site 0) \<noteq> 1")
  case True
  with assms show ?thesis
    by (auto simp: sortHackerNewsArticles_def)
next
  case False
  then have m: "morelink_count (site 0) = 1" by simp
  from assms m obtain evs r where
    L: "sortHackerNewsArticles_loop fuel site rnd T 0 1 (Some now) = Some (evs, r)"
    by (auto simp: sortHackerNewsArticles_def split: option.splits)
  show ?thesis
  proof (cases r)
    case (Inr c)
    with assms m L show ?thesis
      by (auto simp: sortHackerNewsArticles_def)
  next
    case (Inl out')
    from assms m L Inl have tr: "tr = [Launch, Goto] @ evs" and out: "out = out'"
      by (auto simp: sortHackerNewsArticles_def)
    have le: "(1::int) \<le> T + 1"
    proof (rule ccontr)
      assume "\<not> (1::int) \<le> T + 1"
      then have "\<not> (1::int) \<le> T" by simp
      from loop_done[OF this, of fuel site rnd 0 "Some now"] L Inl show False by simp
    qed
    from loop_fails[OF L[unfolded Inl] le] show ?thesis
      by (auto simp: tr out)
  qed
qed

theorem page_closed_only_on_success_witness:
  "snd (the run_B) = Exited (- 1) \<and> ClosePage \<notin> set (fst (the run_B))
   \<and> snd (the run_C) = Uncaught ReferenceError \<and> ClosePage \<notin> set (fst (the run_C))"
proof -
  have b: "sortHackerNewsArticles 1 2 noon (site_of scenario_B) rnd_zero
             = Some (fst (the run_B), snd (the run_B))"
    unfolding run_B_def by code_simp
  have ob: "snd (the run_B) = Exited (- 1)"
    unfolding run_B_def by code_simp
  have c: "sortHackerNewsArticles 1 2 noon (site_of scenario_C) rnd_zero
             = Some (fst (the run_C), snd (the run_C))"
    unfolding run_C_def by code_simp
  have oc: "snd (the run_C) = Uncaught ReferenceError"
    unfolding run_C_def by code_simp
  from page_closed_only_on_success[OF b] page_closed_only_on_success[OF c] ob oc
  show ?thesis by simp
qed

subsection \<open>Termination of the main loop\<close>

lemma validate_blank:
  assumes "counts tbl 0"
  shows "validateArticlesOnPage tbl idx T b = ([Progress b idx 0 0 0, Banner PageChecked], Inr (idx, b))"
proof -
  have "check_from tbl (min 0 (T - idx + 1)) 0 idx b = ([], Inr (idx, b))"
    by (simp add: check_from.simps)
  with assms show ?thesis
    by (simp add: validateArticlesOnPage_def counts_def)
qed

lemma loop_blank_never_ends:
  assumes "\<forall>k. loaded (site k) \<and> counts (page_table (site (Suc k))) 0"
  shows "idx \<le> T \<Longrightarrow> sortHackerNewsArticles_loop fuel site rnd T k idx b = None"
proof (induction fuel arbitrary: k)
  case 0
  then show ?case by simp
next
  case (Suc fuel)
  from assms have l0: "loaded (site k)" and l1: "loaded (site (Suc k))"
    and c: "counts (page_table (site (Suc k))) 0" by blast+
  from Suc.IH[OF Suc.prems, of "Suc k"] Suc.prems l0 l1 validate_blank[OF c, of idx T b]
  show ?case by (simp add: loaded_def)
qed

lemma loop_progress_terminates:
  assumes "\<forall>k. article_athings (page_table (site (Suc k))) \<noteq> []"
  shows "nat (T + 1 - idx) \<le> fuel \<Longrightarrow>
         \<exists>res. sortHackerNewsArticles_loop fuel site rnd T k idx b = Some res"
proof (induction fuel arbitrary: k idx b)
  case 0
  then show ?case by simp
next
  case (Suc fuel)
  show ?case
  proof (cases "idx \<le> T")
    case False
    from loop_done[OF False] show ?thesis by blast
  next
    case True
    show ?thesis
    proof (cases "sortHackerNewsArticles_loop (Suc fuel) site rnd T k idx b")
      case (Some res)
      then show ?thesis by blast
    next
      case None
      with True obtain evs i1 b1 where
        v: "validateArticlesOnPage (page_table (site (Suc k))) idx T b = (evs, Inr (i1, b1))"
        and rec: "sortHackerNewsArticles_loop fuel site rnd T (Suc k) i1 b1 = None"
        by (auto split: if_splits prod.splits sum.splits option.splits)
      note V = validate_returns[OF v]
      from assms have "0 < length (article_athings (page_table (site (Suc k))))" by simp
      with True have "0 < length (evaluated evs)"
        by (simp add: V(1))
      with V(2) have "idx < i1" by simp
      with Suc.prems have "nat (T + 1 - i1) \<le> fuel" by simp
      from Suc.IH[OF this, of "Suc k" b1] rec show ?thesis by simp
    qed
  qed
qed

text \<open>
  C9, as amended. A table whose three counts are all zero passes the count check; the page-level
  function evaluates no entry and returns the index and the bound unchanged. When
  every page after a click is such a page (and loads: one "More" link, the selectors
  visible somewhere on the page), a run with a positive target is still running after
  any number of iterations: the loop never ends. When every page holds at least one
  row, the run ends within \<open>T\<close> iterations. The counterexample below shows that
  neither direction holds without these provisos: on a site of pages with empty tables
  on which nothing matches \<^verbatim>\<open>.age\<close> the wait of line 79 throws and the run ends,
  and a run that meets one blank page before the pages with rows exits with status 0.
\<close>

theorem loop_ends_only_with_entries:
  "(counts tbl 0 \<longrightarrow>
      validateArticlesOnPage tbl idx T b
        = ([Progress b idx 0 0 0, Banner PageChecked], Inr (idx, b)))
   \<and> (0 < T \<and> (\<forall>k. loaded (site k) \<and> counts (page_table (site (Suc k))) 0) \<longrightarrow>
        sortHackerNewsArticles fuel T now site rnd = None)
   \<and> ((\<forall>k. article_athings (page_table (site (Suc k))) \<noteq> []) \<longrightarrow>
        (\<exists>res. sortHackerNewsArticles (nat T) T now site rnd = Some res))"
proof (intro conjI impI)
  assume "counts tbl 0"
  then show "validateArticlesOnPage tbl idx T b
        = ([Progress b idx 0 0 0, Banner PageChecked], Inr (idx, b))"
    by (rule validate_blank)
next
  assume a: "0 < T \<and> (\<forall>k. loaded (site k) \<and> counts (page_table (site (Suc k))) 0)"
  then have le: "(1::int) \<le> T" and all: "\<forall>k. loaded (site k) \<and> counts (page_table (site (Suc k))) 0"
    by auto
  from all have "morelink_count (site 0) = 1" by (simp add: loaded_def)
  with loop_blank_never_ends[OF all le, of fuel rnd 0 "Some now"]
  show "sortHackerNewsArticles fuel T now site rnd = None"
    by (simp add: sortHackerNewsArticles_def)
next
  assume a: "\<forall>k. article_athings (page_table (site (Suc k))) \<noteq> []"
  have "nat (T + 1 - 1) \<le> nat T" by simp
  from loop_progress_terminates[OF a this, of rnd 0 "Some now"]
  obtain res where "sortHackerNewsArticles_loop (nat T) site rnd T 0 1 (Some now) = Some res"
    by blast
  then show "\<exists>res. sortHackerNewsArticles (nat T) T now site rnd = Some res"
    by (cases res; cases "snd res") (auto simp: sortHackerNewsArticles_def)
qed

theorem loop_ends_only_with_entries_witness:
  "sortHackerNewsArticles 1000 3 noon (site_of (rows [])) rnd_zero = None
   \<and> validateArticlesOnPage (rows []) 1 3 (Some noon)
       = ([Progress (Some noon) 1 0 0 0, Banner PageChecked], Inr (1, Some noon))
   \<and> (\<exists>res. sortHackerNewsArticles (nat 100) 100 noon site30 rnd_zero = Some res)"
proof -
  have c: "counts (rows []) 0" by (simp add: counts_def rows_def)
  have h: "(0::int) < 3 \<and> (\<forall>k. loaded (site_of (rows []) k)
              \<and> counts (page_table (site_of (rows []) (Suc k))) 0)"
    by (simp add: loaded_def site_of_def page_of_def counts_def rows_def)
  have g: "\<forall>k. article_athings (page_table (site30 (Suc k))) \<noteq> []"
    by (simp add: site30_def page_of_def rows_def)
  note t = loop_ends_only_with_entries[where tbl = "rows []" and idx = 1 and T = 3
      and b = "Some noon" and site = "site_of (rows [])" and fuel = 1000 and now = noon
      and rnd = rnd_zero]
  note u = loop_ends_only_with_entries[where T = 100 and site = site30 and now = noon
      and rnd = rnd_zero]
  from mp[OF conjunct1[OF t] c] mp[OF conjunct1[OF conjunct2[OF t]] h]
    mp[OF conjunct2[OF conjunct2[OF u]] g]
  show ?thesis by blast
qed

theorem loop_termination_counterexample:
  "counts (page_table (site_bare 1)) 0
   \<and> run_bare = Some ([Launch, Goto, WaitTimeout 200, ClickMore, WaitTimeout 200],
                      Uncaught TimeoutError)
   \<and> counts (page_table (site30_blank_first 1)) 0
   \<and> snd (the run_blank_first) = Exited 0
   \<and> entries_per_page (fst (the run_blank_first)) = [0, 30, 30, 30, 10]"
  unfolding run_bare_def run_blank_first_def by code_simp

subsection \<open>Invalid dates\<close>

lemma date_gt_None [simp]: "\<not> date_gt None b" "\<not> date_gt a None"
  by (simp_all add: date_gt_def split: option.splits)

text \<open>
  C10, as amended. An entry whose age does not parse is never rejected, whatever the
  bound: the loop goes on with the invalid date as the bound. With an invalid bound the
  next entry is accepted whatever its timestamp, and its timestamp becomes the bound:
  from then on entries are compared as usual. The counterexample below is a page that
  starts with an unparsable age followed by 10:00 and 10:01: the third entry is
  rejected.
\<close>

theorem invalid_date_passes_and_frees_next:
  "(int i < num \<and> article_ages tbl ! i = None \<longrightarrow>
      check_from tbl num i idx b =
        (case check_from tbl num (Suc i) (idx + 1) None of
           (evs, r) \<Rightarrow> (Evaluated idx (article_info tbl i) b # evs, r)))
   \<and> (int i < num \<longrightarrow>
      check_from tbl num i idx None =
        (case check_from tbl num (Suc i) (idx + 1) (article_ages tbl ! i) of
           (evs, r) \<Rightarrow> (Evaluated idx (article_info tbl i) None # evs, r)))"
  by (simp add: check_from.simps[of tbl num i] timestamp_article_info)

theorem invalid_date_passes_and_frees_next_witness:
  "article_ages scenario_invalid ! 1 = None
   \<and> snd (check_from scenario_invalid 3 1 2 (Some 36000000)) = Inr (4, Some 36060000)
   \<and> date_gt (Some 36060000) (Some 36000000)"
proof -
  have h1: "int 1 < 3 \<and> article_ages scenario_invalid ! 1 = None"
    by (simp add: scenario_invalid_def rows_def)
  have h2: "int (Suc 1) < 3" by simp
  have e: "\<And>x. check_from scenario_invalid 3 (Suc (Suc 1)) (2 + 1 + 1) x = ([], Inr (4, x))"
    by (simp add: check_from.simps)
  note t1 = mp[OF conjunct1[OF invalid_date_passes_and_frees_next[where i = 1 and num = 3
        and tbl = scenario_invalid and idx = 2 and b = "Some 36000000"]] h1]
  note t2 = mp[OF conjunct2[OF invalid_date_passes_and_frees_next[where i = "Suc 1" and num = 3
        and tbl = scenario_invalid and idx = "2 + 1"]] h2]
  have "snd (check_from scenario_invalid 3 1 2 (Some 36000000)) = Inr (4, Some 36060000)"
    unfolding t1 t2 e by (simp add: scenario_invalid_def rows_def)
  with h1 show ?thesis by (simp add: date_gt_def)
qed

theorem invalid_date_counterexample:
  "snd (validateArticlesOnPage scenario_invalid_first 1 100 (Some noon)) = Inl (Exited (- 1))
   \<and> evaluated_timestamps (fst (validateArticlesOnPage scenario_invalid_first 1 100 (Some noon)))
       = [None, Some 36000000, Some 36060000]"
  by code_simp

subsection \<open>Further properties\<close>

text \<open>
  For a value \<open>0 \<le> r < 1\<close> of \<^verbatim>\<open>Math.random()\<close> and a positive range, the
  delay lies between the minimum and the minimum plus the range, the upper end
  excluded: between 200 and 1000 milliseconds for the calls of lines 57 and 63.
\<close>

theorem random_delay_range:
  assumes "0 \<le> r" and "r < 1" and "0 < ms_range"
  shows "ms_min_time \<le> random_delay ms_min_time ms_range r
         \<and> random_delay ms_min_time ms_range r < ms_min_time + ms_range"
proof -
  have "0 \<le> r * of_int ms_range" using assms by simp
  then have lo: "0 \<le> \<lfloor>r * of_int ms_range\<rfloor>" by simp
  have "r * of_int ms_range < 1 * of_int ms_range"
    using assms by (intro mult_strict_right_mono) simp_all
  then have hi: "\<lfloor>r * of_int ms_range\<rfloor> < ms_range"
    by (simp add: floor_less_iff)
  from lo hi show ?thesis by (simp add: random_delay_def)
qed

theorem random_delay_range_witness:
  "200 \<le> random_delay 200 800 (rnd_half 0) \<and> random_delay 200 800 (rnd_half 0) < 200 + 800"
proof -
  have "0 \<le> rnd_half 0" "rnd_half 0 < 1" "(0::int) < 800"
    by (simp_all add: rnd_half_def)
  from random_delay_range[OF this] show ?thesis .
qed

lemma loop_ignores_first_page:
  assumes "\<forall>k. site (Suc k) = site' (Suc k)"
  shows "morelink_count (site k) = morelink_count (site' k) \<Longrightarrow>
         sortHackerNewsArticles_loop fuel site rnd T k idx b
           = sortHackerNewsArticles_loop fuel site' rnd T k idx b"
proof (induction fuel arbitrary: k idx b)
  case 0
  show ?case by simp
next
  case (Suc fuel)
  from assms have s: "site (Suc k) = site' (Suc k)" by blast
  then have m: "morelink_count (site (Suc k)) = morelink_count (site' (Suc k))" by simp
  show ?case
  proof (cases "validateArticlesOnPage (page_table (site' (Suc k))) idx T b")
    case (Pair evs r)
    show ?thesis
    proof (cases r)
      case (Inl out)
      with Pair Suc.prems s show ?thesis by simp
    next
      case (Inr c)
      obtain i1 b1 where c: "c = (i1, b1)" by (cases c) auto
      from Suc.IH[OF m, of i1 b1] Pair Inr c Suc.prems s show ?thesis by simp
    qed
  qed
qed

text \<open>
  The first script clicks "More" before it validates anything, so the rows of the
  page that \<^verbatim>\<open>page.goto\<close> loads are never checked: two sites that agree on the number
  of "More" links of the first page and on every later page give the same run. The
  listing whose first page shows 10:00 before 10:01 passes like the sorted one.
\<close>

theorem first_page_is_never_validated:
  assumes "morelink_count (site 0) = morelink_count (site' 0)"
      and "\<forall>k. site (Suc k) = site' (Suc k)"
  shows "sortHackerNewsArticles fuel T now site rnd = sortHackerNewsArticles fuel T now site' rnd"
  using assms(1) loop_ignores_first_page[OF assms(2) assms(1), of fuel rnd T 1 "Some now"]
  by (simp add: sortHackerNewsArticles_def)

theorem first_page_is_never_validated_witness:
  "sortHackerNewsArticles 4 100 noon site30_shuffled rnd_zero
     = sortHackerNewsArticles 4 100 noon site30 rnd_zero
   \<and> snd (validateArticlesOnPage (page_table (site30_shuffled 0)) 1 100 (Some noon))
       = Inl (Exited (- 1))"
proof -
  have m: "morelink_count (site30_shuffled 0) = morelink_count (site30 0)"
    by (simp add: site30_shuffled_def site30_def page_of_def)
  have a: "\<forall>k. site30_shuffled (Suc k) = site30 (Suc k)"
    by (simp add: site30_shuffled_def)
  have v: "snd (validateArticlesOnPage (page_table (site30_shuffled 0)) 1 100 (Some noon))
       = Inl (Exited (- 1))"
    by code_simp
  from first_page_is_never_validated[OF m a, of 4 100 noon rnd_zero] v show ?thesis by blast
qed

end
